theory Spec2Isabelle
  imports Main "HOL-Library.Word"
begin

section \<open>The shared ring segment\<close>

text \<open>
  Both source files (the file-backed POSIX variant \<^verbatim>\<open>shared_mem_posix.go\<close> and the
  paging-file-backed Windows variant) declare
  \<^verbatim>\<open>const bufferSize = 1024\<close> and a struct with the fields
  \<^verbatim>\<open>buffer [bufferSize]atomic.Uint64\<close>, \<^verbatim>\<open>writeIdx atomic.Uint64\<close> and
  \<^verbatim>\<open>readIdx atomic.Uint64\<close>. The Windows struct has one more field,
  \<^verbatim>\<open>addr uintptr\<close>, which neither \<^verbatim>\<open>Write\<close> nor \<^verbatim>\<open>Read\<close> touches; it only
  matters for the size of the struct.
\<close>

type_synonym u64 = "64 word"

definition bufferSize :: nat where
  "bufferSize = 1024"

record SharedAtomicRingBuffer =
  buffer :: "u64 list"
  writeIdx :: u64
  readIdx :: u64

datatype backend = Posix | Windows

text \<open>\<^verbatim>\<open>time.Duration\<close> counts nanoseconds; \<^verbatim>\<open>time.Microsecond\<close> is 1000 of them.\<close>

definition Microsecond :: int where
  "Microsecond = 1000"

text \<open>The expression \<^verbatim>\<open>(idx + 1) % bufferSize\<close> on \<^verbatim>\<open>uint64\<close> operands.\<close>

definition nextIdx :: "u64 \<Rightarrow> u64" where
  "nextIdx i = (i + 1) mod (of_nat bufferSize)"

section \<open>Write and Read, one atomic access at a time\<close>

text \<open>
  The two operations run in different processes on the same memory. Every access to
  the shared memory is an atomic \<^verbatim>\<open>Load\<close> or \<^verbatim>\<open>Store\<close> of \<^verbatim>\<open>sync/atomic\<close>, so an
  execution is an interleaving of these accesses. A call is therefore modelled by its
  control point together with its local variables, and by a step function that
  performs the next access.

  Control points of \<^verbatim>\<open>Write(value)\<close>, with the locals \<open>value\<close>, \<open>writeIdx\<close>,
  \<open>nextWriteIdx\<close>:
  \<^item> \<open>W_entry\<close>: before \<^verbatim>\<open>writeIdx := rb.writeIdx.Load()\<close>;
  \<^item> \<open>W_check\<close>: before the test \<^verbatim>\<open>nextWriteIdx == rb.readIdx.Load()\<close>;
  \<^item> \<open>W_spin\<close>: before \<^verbatim>\<open>SpinWait(d)\<close>, with the duration passed;
  \<^item> \<open>W_store\<close>: before \<^verbatim>\<open>rb.buffer[writeIdx].Store(value)\<close>;
  \<^item> \<open>W_publish\<close>: before \<^verbatim>\<open>rb.writeIdx.Store(nextWriteIdx)\<close>;
  \<^item> \<open>W_return\<close>: the call has returned the given value;
  \<^item> \<open>W_panic\<close>: the index expression was out of range (Go panics).
\<close>

datatype wpc =
    W_entry u64
  | W_check u64 u64 u64
  | W_spin u64 u64 u64 int
  | W_store u64 u64 u64
  | W_publish u64 u64 u64
  | W_return bool
  | W_panic

text \<open>
  The POSIX variant tests fullness with \<^verbatim>\<open>for nextWriteIdx == rb.readIdx.Load()\<close>, so
  after \<^verbatim>\<open>SpinWait\<close> it tests again. The Windows variant tests with
  \<^verbatim>\<open>if nextWriteIdx == rb.readIdx.Load()\<close>, so after \<^verbatim>\<open>SpinWait\<close> it goes on to
  the store. \<^verbatim>\<open>SpinWait\<close> only reads the clock and yields; it touches no shared
  memory.
\<close>

fun Write_step :: "backend \<Rightarrow> SharedAtomicRingBuffer \<Rightarrow> wpc \<Rightarrow> SharedAtomicRingBuffer \<times> wpc" where
  "Write_step b rb (W_entry v) =
     (let w = writeIdx rb; n = nextIdx w in (rb, W_check v w n))"
| "Write_step b rb (W_check v w n) =
     (if n = readIdx rb then (rb, W_spin v w n (5 * Microsecond)) else (rb, W_store v w n))"
| "Write_step b rb (W_spin v w n d) =
     (case b of Posix \<Rightarrow> (rb, W_check v w n) | Windows \<Rightarrow> (rb, W_store v w n))"
| "Write_step b rb (W_store v w n) =
     (if unat w < bufferSize
      then (rb\<lparr>buffer := (buffer rb)[unat w := v]\<rparr>, W_publish v w n)
      else (rb, W_panic))"
| "Write_step b rb (W_publish v w n) = (rb\<lparr>writeIdx := n\<rparr>, W_return True)"
| "Write_step b rb (W_return r) = (rb, W_return r)"
| "Write_step b rb W_panic = (rb, W_panic)"

text \<open>
  \<^verbatim>\<open>Read\<close> is the same text in both variants. Control points, with the locals
  \<open>readIdx\<close> and \<open>value\<close>:
  \<^item> \<open>R_entry\<close>: before \<^verbatim>\<open>readIdx := rb.readIdx.Load()\<close>;
  \<^item> \<open>R_check\<close>: before the test \<^verbatim>\<open>readIdx == rb.writeIdx.Load()\<close>;
  \<^item> \<open>R_spin\<close>: before \<^verbatim>\<open>SpinWait(d)\<close>;
  \<^item> \<open>R_load\<close>: before \<^verbatim>\<open>value := rb.buffer[readIdx].Load()\<close>;
  \<^item> \<open>R_advance\<close>: before \<^verbatim>\<open>rb.readIdx.Store((readIdx + 1) % bufferSize)\<close>;
  \<^item> \<open>R_return\<close>: the call has returned the given pair;
  \<^item> \<open>R_panic\<close>: the index expression was out of range.
\<close>

datatype rpc =
    R_entry
  | R_check u64
  | R_spin u64 int
  | R_load u64
  | R_advance u64 u64
  | R_return u64 bool
  | R_panic

fun Read_step :: "SharedAtomicRingBuffer \<Rightarrow> rpc \<Rightarrow> SharedAtomicRingBuffer \<times> rpc" where
  "Read_step rb R_entry = (rb, R_check (readIdx rb))"
| "Read_step rb (R_check r) =
     (if r = writeIdx rb then (rb, R_spin r (1 * Microsecond)) else (rb, R_load r))"
| "Read_step rb (R_spin r d) = (rb, R_check r)"
| "Read_step rb (R_load r) =
     (if unat r < bufferSize then (rb, R_advance r (buffer rb ! unat r)) else (rb, R_panic))"
| "Read_step rb (R_advance r v) = (rb\<lparr>readIdx := nextIdx r\<rparr>, R_return v True)"
| "Read_step rb (R_return v ok) = (rb, R_return v ok)"
| "Read_step rb R_panic = (rb, R_panic)"

subsection \<open>A call running alone\<close>

text \<open>
  A call that runs while the other process does nothing is the iteration of its step
  function. The spin loops need not end, so the iteration takes fuel: \<open>None\<close> means
  that the call is still waiting when the fuel is used up.
\<close>

datatype 'a result = Returned 'a | Panicked

primrec Write_run ::
  "backend \<Rightarrow> nat \<Rightarrow> SharedAtomicRingBuffer \<Rightarrow> wpc \<Rightarrow> (SharedAtomicRingBuffer \<times> bool result) option" where
  "Write_run b 0 rb pc =
     (case pc of W_return r \<Rightarrow> Some (rb, Returned r) | W_panic \<Rightarrow> Some (rb, Panicked) | _ \<Rightarrow> None)"
| "Write_run b (Suc k) rb pc =
     (case pc of
        W_return r \<Rightarrow> Some (rb, Returned r)
      | W_panic \<Rightarrow> Some (rb, Panicked)
      | _ \<Rightarrow> (case Write_step b rb pc of (rb', pc') \<Rightarrow> Write_run b k rb' pc'))"

definition Write ::
  "backend \<Rightarrow> nat \<Rightarrow> SharedAtomicRingBuffer \<Rightarrow> u64 \<Rightarrow> (SharedAtomicRingBuffer \<times> bool result) option" where
  "Write b fuel rb v = Write_run b fuel rb (W_entry v)"

primrec Read_run ::
  "nat \<Rightarrow> SharedAtomicRingBuffer \<Rightarrow> rpc \<Rightarrow> (SharedAtomicRingBuffer \<times> (u64 \<times> bool) result) option" where
  "Read_run 0 rb pc =
     (case pc of R_return v ok \<Rightarrow> Some (rb, Returned (v, ok)) | R_panic \<Rightarrow> Some (rb, Panicked) | _ \<Rightarrow> None)"
| "Read_run (Suc k) rb pc =
     (case pc of
        R_return v ok \<Rightarrow> Some (rb, Returned (v, ok))
      | R_panic \<Rightarrow> Some (rb, Panicked)
      | _ \<Rightarrow> (case Read_step rb pc of (rb', pc') \<Rightarrow> Read_run k rb' pc'))"

definition Read ::
  "nat \<Rightarrow> SharedAtomicRingBuffer \<Rightarrow> (SharedAtomicRingBuffer \<times> (u64 \<times> bool) result) option" where
  "Read fuel rb = Read_run fuel rb R_entry"

subsection \<open>One producer and one consumer\<close>

text \<open>
  The producer process calls \<^verbatim>\<open>Write\<close> on the values of \<open>wargs\<close>, one after the other,
  and \<open>wrets\<close> collects what the calls returned; the call in progress, if any, is
  \<open>wcall\<close>. The consumer process calls \<^verbatim>\<open>Read\<close> again and again, and \<open>got\<close> collects
  what the calls returned. A panic stops the process it occurs in.
\<close>

record system =
  mem :: SharedAtomicRingBuffer
  wargs :: "u64 list"
  wcall :: "wpc option"
  wrets :: "bool list"
  rcall :: "rpc option"
  got :: "(u64 \<times> bool) list"

definition prod_step :: "backend \<Rightarrow> system \<Rightarrow> system" where
  "prod_step b s =
     (case wcall s of
        None \<Rightarrow>
          (if length (wrets s) < length (wargs s)
           then s\<lparr>wcall := Some (W_entry (wargs s ! length (wrets s)))\<rparr>
           else s)
      | Some (W_return r) \<Rightarrow> s\<lparr>wcall := None, wrets := wrets s @ [r]\<rparr>
      | Some W_panic \<Rightarrow> s
      | Some pc \<Rightarrow>
          (case Write_step b (mem s) pc of (m', pc') \<Rightarrow> s\<lparr>mem := m', wcall := Some pc'\<rparr>))"

definition cons_step :: "system \<Rightarrow> system" where
  "cons_step s =
     (case rcall s of
        None \<Rightarrow> s\<lparr>rcall := Some R_entry\<rparr>
      | Some (R_return v ok) \<Rightarrow> s\<lparr>rcall := None, got := got s @ [(v, ok)]\<rparr>
      | Some R_panic \<Rightarrow> s
      | Some pc \<Rightarrow>
          (case Read_step (mem s) pc of (m', pc') \<Rightarrow> s\<lparr>mem := m', rcall := Some pc'\<rparr>))"

datatype process = Producer | Consumer

text \<open>An interleaving is the list of the processes that take the successive steps.\<close>

primrec run :: "backend \<Rightarrow> process list \<Rightarrow> system \<Rightarrow> system" where
  "run b [] s = s"
| "run b (p # ps) s = run b ps (case p of Producer \<Rightarrow> prod_step b s | Consumer \<Rightarrow> cons_step s)"

text \<open>A freshly created segment is all zero.\<close>

definition zero_ring :: SharedAtomicRingBuffer where
  "zero_ring = \<lparr>buffer = replicate bufferSize 0, writeIdx = 0, readIdx = 0\<rparr>"

definition init_system :: "u64 list \<Rightarrow> system" where
  "init_system vs = \<lparr>mem = zero_ring, wargs = vs, wcall = None, wrets = [], rcall = None, got = []\<rparr>"

section \<open>Creating the segment\<close>

subsection \<open>The size of the struct\<close>

text \<open>
  Both variants ask for \<^verbatim>\<open>unsafe.Sizeof(SharedAtomicRingBuffer{})\<close> bytes. The Go compiler
  lays the fields out in order, each at the next multiple of its alignment, and rounds
  the size up to the largest alignment. \<^verbatim>\<open>atomic.Uint64\<close> has size 8 and alignment 8 on
  every platform; \<^verbatim>\<open>uintptr\<close> has the size and alignment of a pointer, \<open>p\<close> bytes
  (4 or 8).
\<close>

datatype gotype = AtomicUint64 | Uintptr | ArrayOf nat gotype

fun Sizeof :: "nat \<Rightarrow> gotype \<Rightarrow> nat" where
  "Sizeof p AtomicUint64 = 8"
| "Sizeof p Uintptr = p"
| "Sizeof p (ArrayOf n t) = n * Sizeof p t"

fun Alignof :: "nat \<Rightarrow> gotype \<Rightarrow> nat" where
  "Alignof p AtomicUint64 = 8"
| "Alignof p Uintptr = p"
| "Alignof p (ArrayOf n t) = Alignof p t"

definition align_up :: "nat \<Rightarrow> nat \<Rightarrow> nat" where
  "align_up off a = ((off + a - 1) div a) * a"

definition Sizeof_struct :: "nat \<Rightarrow> gotype list \<Rightarrow> nat" where
  "Sizeof_struct p fs =
     align_up (foldl (\<lambda>off t. align_up off (Alignof p t) + Sizeof p t) 0 fs)
              (foldl max 1 (map (Alignof p) fs))"

fun SharedAtomicRingBuffer_fields :: "backend \<Rightarrow> gotype list" where
  "SharedAtomicRingBuffer_fields Posix = [ArrayOf bufferSize AtomicUint64, AtomicUint64, AtomicUint64]"
| "SharedAtomicRingBuffer_fields Windows =
     [ArrayOf bufferSize AtomicUint64, AtomicUint64, AtomicUint64, Uintptr]"

definition segment_size :: "nat \<Rightarrow> backend \<Rightarrow> nat" where
  "segment_size p b = Sizeof_struct p (SharedAtomicRingBuffer_fields b)"

subsection \<open>The POSIX variant\<close>

text \<open>
  The operating system is a state: the named files with their contents, the open
  descriptors (each named by the path it was opened on) and the shared mappings (file
  and length). Whether \<^verbatim>\<open>os.OpenFile\<close>, \<^verbatim>\<open>syscall.Ftruncate\<close> and \<^verbatim>\<open>syscall.Mmap\<close>
  fail is for the environment to decide, so it is a parameter; a call that fails
  acquires nothing. \<^verbatim>\<open>os.Remove\<close> and \<^verbatim>\<open>file.Close\<close>, whose errors the code ignores, take
  effect. \<^verbatim>\<open>O_CREATE\<close> creates a missing file empty, \<^verbatim>\<open>O_TRUNC\<close> cuts an existing one to
  length 0, and \<^verbatim>\<open>ftruncate\<close> to a larger size fills with zero bytes.
  \<^verbatim>\<open>filepath.Join\<close> is modelled for a plain file name.
\<close>

type_synonym byte = "8 word"

datatype oflag = O_RDWR | O_CREATE | O_TRUNC

record posix_os =
  files :: "string \<Rightarrow> byte list option"
  fds :: "string list"
  mappings :: "(string \<times> nat) list"

record posix_faults =
  open_err :: bool
  ftruncate_err :: bool
  mmap_err :: bool

definition os_OpenFile :: "bool \<Rightarrow> string \<Rightarrow> oflag list \<Rightarrow> posix_os \<Rightarrow> posix_os option" where
  "os_OpenFile fails path flags os =
     (if fails then None
      else (case files os path of
              None \<Rightarrow>
                (if O_CREATE \<in> set flags
                 then Some (os\<lparr>files := (files os)(path \<mapsto> []), fds := path # fds os\<rparr>)
                 else None)
            | Some c \<Rightarrow>
                Some (os\<lparr>files := (files os)(path \<mapsto> (if O_TRUNC \<in> set flags then [] else c)),
                         fds := path # fds os\<rparr>)))"

definition syscall_Ftruncate :: "bool \<Rightarrow> string \<Rightarrow> nat \<Rightarrow> posix_os \<Rightarrow> posix_os option" where
  "syscall_Ftruncate fails path n os =
     (if fails then None
      else Some (os\<lparr>files := (files os)(path \<mapsto>
                   take n ((case files os path of None \<Rightarrow> [] | Some c \<Rightarrow> c) @ replicate n 0))\<rparr>))"

definition syscall_Mmap :: "bool \<Rightarrow> string \<Rightarrow> nat \<Rightarrow> posix_os \<Rightarrow> posix_os option" where
  "syscall_Mmap fails path n os = (if fails then None else Some (os\<lparr>mappings := (path, n) # mappings os\<rparr>))"

definition os_Remove :: "string \<Rightarrow> posix_os \<Rightarrow> posix_os" where
  "os_Remove path os = os\<lparr>files := (files os)(path := None)\<rparr>"

definition file_Close :: "string \<Rightarrow> posix_os \<Rightarrow> posix_os" where
  "file_Close path os = os\<lparr>fds := remove1 path (fds os)\<rparr>"

datatype create_error = OpenFailed | ResizeFailed | MapFailed | CreateFileMappingFailed | MapViewFailed

definition filepath_Join :: "string \<Rightarrow> string \<Rightarrow> string" where
  "filepath_Join dir name = dir @ ''/'' @ name"

definition NewSharedAtomicRingBuffer_posix ::
  "posix_faults \<Rightarrow> nat \<Rightarrow> string \<Rightarrow> posix_os \<Rightarrow> (create_error + string) \<times> posix_os" where
  "NewSharedAtomicRingBuffer_posix f p name os =
     (let shmPath = filepath_Join ''/tmp'' name in
      case os_OpenFile (open_err f) shmPath [O_RDWR, O_CREATE, O_TRUNC] os of
        None \<Rightarrow> (Inl OpenFailed, os)
      | Some os1 \<Rightarrow>
          (let size = segment_size p Posix in
           case syscall_Ftruncate (ftruncate_err f) shmPath size os1 of
             None \<Rightarrow> (Inl ResizeFailed, file_Close shmPath (os_Remove shmPath os1))
           | Some os2 \<Rightarrow>
               (case syscall_Mmap (mmap_err f) shmPath size os2 of
                  None \<Rightarrow> (Inl MapFailed, file_Close shmPath (os_Remove shmPath os2))
                | Some os3 \<Rightarrow> (Inr shmPath, file_Close shmPath os3))))"

subsection \<open>The Windows variant\<close>

text \<open>
  The state holds the open handles to file-mapping objects (name and size) and the
  mapped views. \<^verbatim>\<open>windows.CreateFileMapping\<close> receives the size as \<^verbatim>\<open>uint32\<close>,
  \<^verbatim>\<open>windows.MapViewOfFile\<close> as \<^verbatim>\<open>uintptr\<close>. As above, failure is a parameter and a
  call that fails acquires nothing.
\<close>

record win_os =
  handles :: "(string \<times> nat) list"
  views :: "(string \<times> nat) list"

record win_faults =
  create_err :: bool
  mapview_err :: bool

definition windows_CreateFileMapping :: "bool \<Rightarrow> nat \<Rightarrow> string \<Rightarrow> win_os \<Rightarrow> win_os option" where
  "windows_CreateFileMapping fails maxSizeLow name os =
     (if fails then None else Some (os\<lparr>handles := (name, maxSizeLow) # handles os\<rparr>))"

definition windows_MapViewOfFile :: "bool \<Rightarrow> string \<times> nat \<Rightarrow> nat \<Rightarrow> win_os \<Rightarrow> win_os option" where
  "windows_MapViewOfFile fails h n os =
     (if fails then None else Some (os\<lparr>views := (fst h, n) # views os\<rparr>))"

definition windows_CloseHandle :: "string \<times> nat \<Rightarrow> win_os \<Rightarrow> win_os" where
  "windows_CloseHandle h os = os\<lparr>handles := remove1 h (handles os)\<rparr>"

definition NewSharedAtomicRingBuffer_windows ::
  "win_faults \<Rightarrow> nat \<Rightarrow> string \<Rightarrow> win_os \<Rightarrow> (create_error + string) \<times> win_os" where
  "NewSharedAtomicRingBuffer_windows f p name os =
     (let size = segment_size p Windows; fileMapping = (name, size mod 2 ^ 32) in
      case windows_CreateFileMapping (create_err f) (size mod 2 ^ 32) name os of
        None \<Rightarrow> (Inl CreateFileMappingFailed, os)
      | Some os1 \<Rightarrow>
          (case windows_MapViewOfFile (mapview_err f) fileMapping size os1 of
             None \<Rightarrow> (Inl MapViewFailed, windows_CloseHandle fileMapping os1)
           | Some os2 \<Rightarrow> (Inr name, os2)))"

text \<open>Environments and states for the examples.\<close>

definition no_faults :: posix_faults where
  "no_faults = \<lparr>open_err = False, ftruncate_err = False, mmap_err = False\<rparr>"

definition empty_os :: posix_os where
  "empty_os = \<lparr>files = (\<lambda>_. None), fds = [], mappings = []\<rparr>"

definition stale_os :: posix_os where
  "stale_os = \<lparr>files = (\<lambda>_. None)(''/tmp/SharedRingBuffer'' \<mapsto> replicate 8208 255), fds = [], mappings = []\<rparr>"

definition empty_win :: win_os where
  "empty_win = \<lparr>handles = [], views = []\<rparr>"

definition resize_fault :: posix_faults where
  "resize_fault = \<lparr>open_err = False, ftruncate_err = True, mmap_err = False\<rparr>"

definition mapview_fault :: win_faults where
  "mapview_fault = \<lparr>create_err = False, mapview_err = True\<rparr>"

definition no_win_faults :: win_faults where
  "no_win_faults = \<lparr>create_err = False, mapview_err = False\<rparr>"

section \<open>Invariants\<close>

text \<open>
  Both cursors below the capacity, and the locals of a call in progress below it too.
  A call that has returned has returned \<open>True\<close>, and no call has panicked.
\<close>

definition idx_ok :: "SharedAtomicRingBuffer \<Rightarrow> bool" where
  "idx_ok rb \<longleftrightarrow> unat (writeIdx rb) < bufferSize \<and> unat (readIdx rb) < bufferSize"

fun wpc_ok :: "wpc \<Rightarrow> bool" where
  "wpc_ok (W_entry v) = True"
| "wpc_ok (W_check v w n) = (unat w < bufferSize \<and> unat n < bufferSize)"
| "wpc_ok (W_spin v w n d) = (unat w < bufferSize \<and> unat n < bufferSize)"
| "wpc_ok (W_store v w n) = (unat w < bufferSize \<and> unat n < bufferSize)"
| "wpc_ok (W_publish v w n) = (unat w < bufferSize \<and> unat n < bufferSize)"
| "wpc_ok (W_return r) = r"
| "wpc_ok W_panic = False"

fun rpc_ok :: "rpc \<Rightarrow> bool" where
  "rpc_ok R_entry = True"
| "rpc_ok (R_check r) = (unat r < bufferSize)"
| "rpc_ok (R_spin r d) = (unat r < bufferSize)"
| "rpc_ok (R_load r) = (unat r < bufferSize)"
| "rpc_ok (R_advance r v) = (unat r < bufferSize)"
| "rpc_ok (R_return v ok) = ok"
| "rpc_ok R_panic = False"

definition sys_ok :: "system \<Rightarrow> bool" where
  "sys_ok s \<longleftrightarrow>
     idx_ok (mem s) \<and>
     (\<forall>pc. wcall s = Some pc \<longrightarrow> wpc_ok pc) \<and>
     (\<forall>pc. rcall s = Some pc \<longrightarrow> rpc_ok pc)"

text \<open>
  The invariant of the protocol with the looping fullness test. \<open>a\<close> counts the
  values published so far (stores to \<^verbatim>\<open>writeIdx\<close>), \<open>c\<close> the values consumed so
  far (stores to \<^verbatim>\<open>readIdx\<close>). The cursors are these counts modulo the capacity, at
  most capacity - 1 values are published and not consumed, and the slots between the
  cursors hold exactly these values, in the order of the producer's calls.
\<close>

definition ring_inv :: "SharedAtomicRingBuffer \<Rightarrow> u64 list \<Rightarrow> nat \<Rightarrow> nat \<Rightarrow> bool" where
  "ring_inv rb vs a c \<longleftrightarrow>
     length (buffer rb) = bufferSize \<and> c \<le> a \<and> a \<le> c + (bufferSize - 1) \<and> a \<le> length vs \<and>
     unat (writeIdx rb) = a mod bufferSize \<and> unat (readIdx rb) = c mod bufferSize \<and>
     (\<forall>k. c \<le> k \<and> k < a \<longrightarrow> buffer rb ! (k mod bufferSize) = vs ! k)"

fun wpc_fifo :: "SharedAtomicRingBuffer \<Rightarrow> u64 list \<Rightarrow> nat \<Rightarrow> nat \<Rightarrow> wpc \<Rightarrow> bool" where
  "wpc_fifo rb vs a c (W_entry v) = (a < length vs \<and> v = vs ! a)"
| "wpc_fifo rb vs a c (W_check v w n) =
     (a < length vs \<and> v = vs ! a \<and> w = writeIdx rb \<and> n = nextIdx w)"
| "wpc_fifo rb vs a c (W_spin v w n d) =
     (a < length vs \<and> v = vs ! a \<and> w = writeIdx rb \<and> n = nextIdx w)"
| "wpc_fifo rb vs a c (W_store v w n) =
     (a < length vs \<and> v = vs ! a \<and> w = writeIdx rb \<and> n = nextIdx w \<and> a < c + (bufferSize - 1))"
| "wpc_fifo rb vs a c (W_publish v w n) =
     (a < length vs \<and> v = vs ! a \<and> w = writeIdx rb \<and> n = nextIdx w \<and> a < c + (bufferSize - 1) \<and>
      buffer rb ! (a mod bufferSize) = v)"
| "wpc_fifo rb vs a c (W_return r) = r"
| "wpc_fifo rb vs a c W_panic = False"

fun rpc_fifo :: "SharedAtomicRingBuffer \<Rightarrow> u64 list \<Rightarrow> nat \<Rightarrow> nat \<Rightarrow> rpc \<Rightarrow> bool" where
  "rpc_fifo rb vs a c R_entry = True"
| "rpc_fifo rb vs a c (R_check r) = (r = readIdx rb)"
| "rpc_fifo rb vs a c (R_spin r d) = (r = readIdx rb)"
| "rpc_fifo rb vs a c (R_load r) = (r = readIdx rb \<and> c < a)"
| "rpc_fifo rb vs a c (R_advance r v) = (r = readIdx rb \<and> c < a \<and> v = vs ! c)"
| "rpc_fifo rb vs a c (R_return v ok) = (ok \<and> 0 < c \<and> v = vs ! (c - 1))"
| "rpc_fifo rb vs a c R_panic = False"

fun w_returned :: "wpc option \<Rightarrow> nat" where
  "w_returned (Some (W_return r)) = 1"
| "w_returned pc = 0"

fun r_returned :: "rpc option \<Rightarrow> nat" where
  "r_returned (Some (R_return v ok)) = 1"
| "r_returned pc = 0"

definition nw :: "system \<Rightarrow> nat" where
  "nw s = length (wrets s) + w_returned (wcall s)"

definition nr :: "system \<Rightarrow> nat" where
  "nr s = length (got s) + r_returned (rcall s)"

definition fifo_inv :: "system \<Rightarrow> bool" where
  "fifo_inv s \<longleftrightarrow>
     ring_inv (mem s) (wargs s) (nw s) (nr s) \<and>
     (\<forall>pc. wcall s = Some pc \<longrightarrow> wpc_fifo (mem s) (wargs s) (nw s) (nr s) pc) \<and>
     (\<forall>pc. rcall s = Some pc \<longrightarrow> rpc_fifo (mem s) (wargs s) (nw s) (nr s) pc) \<and>
     list_all (\<lambda>r. r) (wrets s) \<and>
     got s = map (\<lambda>v. (v, True)) (take (length (got s)) (wargs s))"

text \<open>
  The state after the producer alone has completed its first \<open>k\<close> calls on a fresh
  segment, and the control points at which a \<^verbatim>\<open>Write\<close> call has not yet passed the
  fullness test.
\<close>

definition filled :: "u64 list \<Rightarrow> nat \<Rightarrow> system" where
  "filled vs k = (init_system vs)
     \<lparr>mem := \<lparr>buffer = take k vs @ replicate (bufferSize - k) 0, writeIdx = of_nat k, readIdx = 0\<rparr>,
      wrets := replicate k True\<rparr>"

fun w_waiting :: "wpc option \<Rightarrow> bool" where
  "w_waiting None = True"
| "w_waiting (Some (W_entry v)) = True"
| "w_waiting (Some (W_check v w n)) = True"
| "w_waiting (Some (W_spin v w n d)) = True"
| "w_waiting (Some pc) = False"

text \<open>
  The segment a call leaves behind when it returns, as a function of the control point
  it is at; and the segment after one \<^verbatim>\<open>Write(7)\<close> on a fresh one.
\<close>

fun w_post :: "SharedAtomicRingBuffer \<Rightarrow> wpc \<Rightarrow> SharedAtomicRingBuffer" where
  "w_post rb (W_entry v) = rb\<lparr>buffer := (buffer rb)[unat (writeIdx rb) := v], writeIdx := nextIdx (writeIdx rb)\<rparr>"
| "w_post rb (W_check v w n) = rb\<lparr>buffer := (buffer rb)[unat w := v], writeIdx := n\<rparr>"
| "w_post rb (W_spin v w n d) = rb\<lparr>buffer := (buffer rb)[unat w := v], writeIdx := n\<rparr>"
| "w_post rb (W_store v w n) = rb\<lparr>buffer := (buffer rb)[unat w := v], writeIdx := n\<rparr>"
| "w_post rb (W_publish v w n) = rb\<lparr>writeIdx := n\<rparr>"
| "w_post rb (W_return r) = rb"
| "w_post rb W_panic = rb"

fun r_post :: "SharedAtomicRingBuffer \<Rightarrow> rpc \<Rightarrow> SharedAtomicRingBuffer" where
  "r_post rb R_entry = rb\<lparr>readIdx := nextIdx (readIdx rb)\<rparr>"
| "r_post rb (R_check r) = rb\<lparr>readIdx := nextIdx r\<rparr>"
| "r_post rb (R_spin r d) = rb\<lparr>readIdx := nextIdx r\<rparr>"
| "r_post rb (R_load r) = rb\<lparr>readIdx := nextIdx r\<rparr>"
| "r_post rb (R_advance r v) = rb\<lparr>readIdx := nextIdx r\<rparr>"
| "r_post rb (R_return v ok) = rb"
| "r_post rb R_panic = rb"

definition one_slot_ring :: SharedAtomicRingBuffer where
  "one_slot_ring = \<lparr>buffer = (replicate bufferSize 0)[0 := 7], writeIdx = 1, readIdx = 0\<rparr>"

section \<open>Index arithmetic\<close>

lemma unat_bufferSize: "unat (of_nat bufferSize :: u64) = bufferSize"
  by (simp add: bufferSize_def)

lemma unat_nextIdx: "unat (nextIdx i) = (unat i + 1) mod bufferSize"
proof -
  have "unat (nextIdx i) = unat (i + 1) mod bufferSize"
    by (simp add: nextIdx_def unat_mod unat_bufferSize)
  also have "unat (i + 1) = (unat i + 1) mod 2 ^ 64"
    by (simp add: unat_word_ariths)
  also have "(unat i + 1) mod 2 ^ 64 mod bufferSize = (unat i + 1) mod bufferSize"
    by (rule mod_mod_cancel) (simp add: bufferSize_def)
  finally show ?thesis .
qed

lemma bufferSize_pos: "0 < bufferSize" by (simp add: bufferSize_def)
lemma bufferSize_gt1: "1 < bufferSize" by (simp add: bufferSize_def)

lemma nextIdx_lt: "unat (nextIdx i) < bufferSize"
  by (simp add: unat_nextIdx bufferSize_pos)

lemma mod_eq_close:
  fixes a b N :: nat
  assumes "a \<le> b" "b - a < N" "a mod N = b mod N"
  shows "a = b"
proof (rule ccontr)
  assume "a \<noteq> b"
  with assms have "0 < b - a" by simp
  moreover from assms have "N dvd b - a" by (metis mod_eq_dvd_iff_nat)
  ultimately show False using assms(2) by (meson dvd_imp_le not_less)
qed


section \<open>Cursors stay in range\<close>

lemma Write_step_ok:
  "idx_ok rb \<Longrightarrow> wpc_ok pc \<Longrightarrow> Write_step b rb pc = (rb', pc') \<Longrightarrow> idx_ok rb' \<and> wpc_ok pc'"
  by (cases pc; cases b) (auto simp: idx_ok_def nextIdx_lt Let_def split: if_splits)

lemma Read_step_ok:
  "idx_ok rb \<Longrightarrow> rpc_ok pc \<Longrightarrow> Read_step rb pc = (rb', pc') \<Longrightarrow> idx_ok rb' \<and> rpc_ok pc'"
  by (cases pc) (auto simp: idx_ok_def nextIdx_lt split: if_splits)

lemma prod_step_call:
  "wcall s = Some pc \<Longrightarrow> (\<forall>r. pc \<noteq> W_return r) \<Longrightarrow> pc \<noteq> W_panic \<Longrightarrow>
   Write_step b (mem s) pc = (m', pc') \<Longrightarrow> prod_step b s = s\<lparr>mem := m', wcall := Some pc'\<rparr>"
  by (cases pc) (auto simp add: prod_step_def simp del: Write_step.simps)

lemma cons_step_call:
  "rcall s = Some pc \<Longrightarrow> (\<forall>v ok. pc \<noteq> R_return v ok) \<Longrightarrow> pc \<noteq> R_panic \<Longrightarrow>
   Read_step (mem s) pc = (m', pc') \<Longrightarrow> cons_step s = s\<lparr>mem := m', rcall := Some pc'\<rparr>"
  by (cases pc) (auto simp add: cons_step_def simp del: Read_step.simps)

lemma prod_step_ok:
  assumes ok: "sys_ok s"
  shows "sys_ok (prod_step b s) \<and> list_all (\<lambda>r. r) (wrets (prod_step b s)) = list_all (\<lambda>r. r) (wrets s)
     \<and> got (prod_step b s) = got s"
proof (cases "wcall s")
  case None
  with ok show ?thesis by (simp add: prod_step_def sys_ok_def)
next
  case (Some pc)
  obtain m' pc' where st: "Write_step b (mem s) pc = (m', pc')" by (cases "Write_step b (mem s) pc")
  from ok Some have "idx_ok (mem s)" "wpc_ok pc" by (simp_all add: sys_ok_def)
  from Write_step_ok[OF this st] have ok': "idx_ok m'" "wpc_ok pc'" by simp_all
  consider r where "pc = W_return r" | "pc = W_panic" | "(\<forall>r. pc \<noteq> W_return r) \<and> pc \<noteq> W_panic"
    by blast
  then show ?thesis
  proof cases
    case 1
    with ok Some show ?thesis by (simp add: prod_step_def sys_ok_def)
  next
    case 2
    with ok Some show ?thesis by (simp add: prod_step_def sys_ok_def)
  next
    case 3
    then have "prod_step b s = s\<lparr>mem := m', wcall := Some pc'\<rparr>"
      using prod_step_call[OF Some _ _ st] by blast
    with ok ok' show ?thesis by (simp add: sys_ok_def)
  qed
qed

lemma cons_step_ok:
  assumes ok: "sys_ok s"
  shows "sys_ok (cons_step s) \<and> list_all snd (got (cons_step s)) = list_all snd (got s)
     \<and> wrets (cons_step s) = wrets s"
proof (cases "rcall s")
  case None
  with ok show ?thesis by (simp add: cons_step_def sys_ok_def)
next
  case (Some pc)
  obtain m' pc' where st: "Read_step (mem s) pc = (m', pc')" by (cases "Read_step (mem s) pc")
  from ok Some have "idx_ok (mem s)" "rpc_ok pc" by (simp_all add: sys_ok_def)
  from Read_step_ok[OF this st] have ok': "idx_ok m'" "rpc_ok pc'" by simp_all
  consider v k where "pc = R_return v k" | "pc = R_panic"
    | "(\<forall>v k. pc \<noteq> R_return v k) \<and> pc \<noteq> R_panic"
    by blast
  then show ?thesis
  proof cases
    case 1
    with ok Some show ?thesis by (simp add: cons_step_def sys_ok_def)
  next
    case 2
    with ok Some show ?thesis by (simp add: cons_step_def sys_ok_def)
  next
    case 3
    then have "cons_step s = s\<lparr>mem := m', rcall := Some pc'\<rparr>"
      using cons_step_call[OF Some _ _ st] by blast
    with ok ok' show ?thesis by (simp add: sys_ok_def)
  qed
qed

lemma run_ok:
  "sys_ok s \<Longrightarrow> sys_ok (run b sched s) \<and>
     list_all (\<lambda>r. r) (wrets (run b sched s)) = list_all (\<lambda>r. r) (wrets s) \<and>
     list_all snd (got (run b sched s)) = list_all snd (got s)"
proof (induction sched arbitrary: s)
  case Nil
  then show ?case by simp
next
  case (Cons p ps)
  show ?case
  proof (cases p)
    case Producer
    with Cons.IH[of "prod_step b s"] prod_step_ok[OF Cons.prems, of b] show ?thesis by simp
  next
    case Consumer
    with Cons.IH[of "cons_step s"] cons_step_ok[OF Cons.prems] show ?thesis by simp
  qed
qed


section \<open>The looping variant keeps the queue discipline\<close>

lemma full_iff:
  assumes "ring_inv rb vs a c"
  shows "nextIdx (writeIdx rb) = readIdx rb \<longleftrightarrow> a = c + (bufferSize - 1)"
proof -
  from assms have wi: "unat (writeIdx rb) = a mod bufferSize" and ri: "unat (readIdx rb) = c mod bufferSize"
    and le: "c \<le> a" "a \<le> c + (bufferSize - 1)"
    by (simp_all add: ring_inv_def)
  have nx: "unat (nextIdx (writeIdx rb)) = (a + 1) mod bufferSize"
    by (simp add: unat_nextIdx wi mod_Suc_eq)
  have "nextIdx (writeIdx rb) = readIdx rb \<longleftrightarrow> (a + 1) mod bufferSize = c mod bufferSize"
    using nx ri by (simp add: word_unat_eq_iff)
  also have "\<dots> \<longleftrightarrow> a = c + (bufferSize - 1)"
  proof
    assume eq: "(a + 1) mod bufferSize = c mod bufferSize"
    show "a = c + (bufferSize - 1)"
    proof (rule ccontr)
      assume "a \<noteq> c + (bufferSize - 1)"
      with le have "a + 1 - c < bufferSize" by simp
      from mod_eq_close[OF _ this eq[symmetric]] le show False by simp
    qed
  next
    assume "a = c + (bufferSize - 1)"
    then have "a + 1 = c + bufferSize" using bufferSize_pos by simp
    then show "(a + 1) mod bufferSize = c mod bufferSize" by simp
  qed
  finally show ?thesis .
qed

lemma empty_iff:
  assumes "ring_inv rb vs a c"
  shows "readIdx rb = writeIdx rb \<longleftrightarrow> a = c"
proof -
  from assms have wi: "unat (writeIdx rb) = a mod bufferSize" and ri: "unat (readIdx rb) = c mod bufferSize"
    and le: "c \<le> a" "a \<le> c + (bufferSize - 1)"
    by (simp_all add: ring_inv_def)
  have "readIdx rb = writeIdx rb \<longleftrightarrow> c mod bufferSize = a mod bufferSize"
    using wi ri by (simp add: word_unat_eq_iff)
  also have "\<dots> \<longleftrightarrow> a = c"
  proof
    assume eq: "c mod bufferSize = a mod bufferSize"
    from le bufferSize_pos have "a - c < bufferSize" by simp
    from mod_eq_close[OF le(1) this eq] show "a = c" by simp
  qed simp
  finally show ?thesis .
qed

lemma slot_distinct:
  assumes "c \<le> k" "k < a" "a \<le> c + (bufferSize - 1)"
  shows "k mod bufferSize \<noteq> a mod bufferSize"
proof
  assume eq: "k mod bufferSize = a mod bufferSize"
  from assms bufferSize_pos have "a - k < bufferSize" by simp
  from mod_eq_close[OF _ this eq] assms show False by simp
qed


lemma Write_step_fifo:
  assumes ri: "ring_inv rb vs a c" and wi: "wpc_fifo rb vs a c pc"
    and st: "Write_step Posix rb pc = (rb', pc')"
    and a': "a' = a + w_returned (Some pc') - w_returned (Some pc)"
  shows "ring_inv rb' vs a' c \<and> wpc_fifo rb' vs a' c pc' \<and> readIdx rb' = readIdx rb"
proof (cases pc)
  case (W_entry v)
  with ri wi st a' show ?thesis by (auto simp: Let_def)
next
  case (W_check v w n)
  with ri wi st a' full_iff[OF ri] show ?thesis
    by (auto simp: ring_inv_def split: if_splits)
next
  case (W_spin v w n d)
  with ri wi st a' show ?thesis by auto
next
  case (W_store v w n)
  with wi have w: "w = writeIdx rb" and lt: "a < c + (bufferSize - 1)" and v: "v = vs ! a"
    and n: "n = nextIdx w" and al: "a < length vs" by simp_all
  from ri have len: "length (buffer rb) = bufferSize" and uw: "unat (writeIdx rb) = a mod bufferSize"
    by (simp_all add: ring_inv_def)
  have inr: "unat w < bufferSize" using w uw bufferSize_pos by simp
  with st W_store have rb': "rb' = rb\<lparr>buffer := (buffer rb)[unat w := v]\<rparr>" and pc': "pc' = W_publish v w n"
    by simp_all
  have keep: "\<forall>k. c \<le> k \<and> k < a \<longrightarrow> (buffer rb)[unat w := v] ! (k mod bufferSize) = vs ! k"
  proof (intro allI impI)
    fix k assume k: "c \<le> k \<and> k < a"
    with lt have "k mod bufferSize \<noteq> a mod bufferSize" by (intro slot_distinct[of c]) simp_all
    with k ri w uw show "(buffer rb)[unat w := v] ! (k mod bufferSize) = vs ! k"
      by (simp add: ring_inv_def)
  qed
  have "(buffer rb)[unat w := v] ! (a mod bufferSize) = v"
    using w uw len inr by simp
  with keep ri wi a' W_store show ?thesis
    by (simp add: rb' pc' ring_inv_def)
next
  case (W_publish v w n)
  with wi have w: "w = writeIdx rb" and lt: "a < c + (bufferSize - 1)" and v: "v = vs ! a"
    and n: "n = nextIdx w" and al: "a < length vs" and bv: "buffer rb ! (a mod bufferSize) = v"
    by simp_all
  from st W_publish have rb': "rb' = rb\<lparr>writeIdx := n\<rparr>" and pc': "pc' = W_return True" by simp_all
  from a' W_publish pc' have a'': "a' = Suc a" by simp
  from ri have uw: "unat (writeIdx rb) = a mod bufferSize" by (simp add: ring_inv_def)
  have un: "unat n = Suc a mod bufferSize" by (simp add: n w unat_nextIdx uw mod_Suc_eq)
  have "\<forall>k. c \<le> k \<and> k < Suc a \<longrightarrow> buffer rb ! (k mod bufferSize) = vs ! k"
    using ri bv v by (auto simp: ring_inv_def less_Suc_eq)
  with ri lt al un show ?thesis
    by (simp add: rb' pc' a'' ring_inv_def)
next
  case (W_return r)
  with ri wi st a' show ?thesis by auto
next
  case W_panic
  with wi show ?thesis by simp
qed

lemma Write_step_rpc_fifo:
  assumes "Write_step b rb pc = (rb', pc')" "rpc_fifo rb vs a c q" "a \<le> a'"
  shows "rpc_fifo rb' vs a' c q"
proof -
  from assms(1) have "readIdx rb' = readIdx rb"
    by (cases pc; cases b) (auto simp: Let_def split: if_splits)
  with assms(2,3) show ?thesis by (cases q) auto
qed

lemma Read_step_fifo:
  assumes ri: "ring_inv rb vs a c" and wi: "rpc_fifo rb vs a c pc"
    and st: "Read_step rb pc = (rb', pc')"
    and c': "c' = c + r_returned (Some pc') - r_returned (Some pc)"
  shows "ring_inv rb' vs a c' \<and> rpc_fifo rb' vs a c' pc' \<and> writeIdx rb' = writeIdx rb \<and> buffer rb' = buffer rb"
proof (cases pc)
  case R_entry
  with ri wi st c' show ?thesis by auto
next
  case (R_check r)
  with ri wi st c' empty_iff[OF ri] show ?thesis
    by (auto simp: ring_inv_def split: if_splits)
next
  case (R_spin r d)
  with ri wi st c' show ?thesis by auto
next
  case (R_load r)
  with wi have r: "r = readIdx rb" and lt: "c < a" by simp_all
  from ri have ur: "unat (readIdx rb) = c mod bufferSize"
    and sl: "buffer rb ! (c mod bufferSize) = vs ! c"
    using lt by (simp_all add: ring_inv_def)
  have "unat r < bufferSize" using r ur bufferSize_pos by simp
  with st R_load have "rb' = rb" "pc' = R_advance r (buffer rb ! unat r)" by auto
  with ri wi c' R_load r ur sl show ?thesis by simp
next
  case (R_advance r v)
  with wi have r: "r = readIdx rb" and lt: "c < a" and v: "v = vs ! c" by simp_all
  from st R_advance have rb': "rb' = rb\<lparr>readIdx := nextIdx r\<rparr>" and pc': "pc' = R_return v True"
    by simp_all
  from c' R_advance pc' have c'': "c' = Suc c" by simp
  from ri have ur: "unat (readIdx rb) = c mod bufferSize" by (simp add: ring_inv_def)
  have "unat (nextIdx r) = Suc c mod bufferSize" by (simp add: r unat_nextIdx ur mod_Suc_eq)
  with ri lt v show ?thesis
    by (simp add: rb' pc' c'' ring_inv_def)
next
  case (R_return v ok)
  with ri wi st c' show ?thesis by auto
next
  case R_panic
  with wi show ?thesis by simp
qed

lemma Read_step_wpc_fifo:
  assumes "Read_step rb pc = (rb', pc')" "wpc_fifo rb vs a c q" "c \<le> c'"
  shows "wpc_fifo rb' vs a c' q"
proof -
  from assms(1) have "writeIdx rb' = writeIdx rb \<and> buffer rb' = buffer rb"
    by (cases pc) (auto split: if_splits)
  with assms(2,3) show ?thesis by (cases q) auto
qed


lemma w_returned_step:
  "Write_step b rb pc = (rb', pc') \<Longrightarrow> (\<forall>r. pc \<noteq> W_return r) \<Longrightarrow>
   w_returned (Some pc') = (case pc of W_publish v w n \<Rightarrow> 1 | _ \<Rightarrow> 0) \<and> w_returned (Some pc) = 0"
  by (cases pc; cases b) (auto simp: Let_def split: if_splits)

lemma r_returned_step:
  "Read_step rb pc = (rb', pc') \<Longrightarrow> (\<forall>v k. pc \<noteq> R_return v k) \<Longrightarrow>
   r_returned (Some pc') = (case pc of R_advance r v \<Rightarrow> 1 | _ \<Rightarrow> 0) \<and> r_returned (Some pc) = 0"
  by (cases pc) (auto split: if_splits)

lemma prod_step_fifo:
  assumes inv: "fifo_inv s"
  shows "fifo_inv (prod_step Posix s)"
proof (cases "wcall s")
  case None
  show ?thesis
  proof (cases "length (wrets s) < length (wargs s)")
    case True
    with None have "prod_step Posix s = s\<lparr>wcall := Some (W_entry (wargs s ! length (wrets s)))\<rparr>"
      by (simp add: prod_step_def)
    with inv None True show ?thesis by (simp add: fifo_inv_def nw_def nr_def)
  next
    case False
    with None inv show ?thesis by (simp add: prod_step_def)
  qed
next
  case (Some pc)
  from inv Some have ri: "ring_inv (mem s) (wargs s) (nw s) (nr s)"
    and wi: "wpc_fifo (mem s) (wargs s) (nw s) (nr s) pc"
    by (simp_all add: fifo_inv_def)
  consider r where "pc = W_return r" | "pc = W_panic" | "(\<forall>r. pc \<noteq> W_return r) \<and> pc \<noteq> W_panic"
    by blast
  then show ?thesis
  proof cases
    case 1
    with Some have "prod_step Posix s = s\<lparr>wcall := None, wrets := wrets s @ [r]\<rparr>"
      by (simp add: prod_step_def)
    moreover from wi 1 have r by simp
    ultimately show ?thesis using inv Some 1
      by (auto simp: fifo_inv_def nw_def nr_def)
  next
    case 2
    with wi show ?thesis by simp
  next
    case 3
    obtain m' pc' where st: "Write_step Posix (mem s) pc = (m', pc')"
      by (cases "Write_step Posix (mem s) pc")
    from 3 have s': "prod_step Posix s = s\<lparr>mem := m', wcall := Some pc'\<rparr>"
      using prod_step_call[OF Some _ _ st] by blast
    define a' where "a' = nw s + w_returned (Some pc') - w_returned (Some pc)"
    from w_returned_step[OF st] 3 have z: "w_returned (Some pc) = 0" by blast
    have nw': "nw (prod_step Posix s) = a'"
      using Some z by (simp add: s' nw_def a'_def)
    have nr': "nr (prod_step Posix s) = nr s"
      by (simp add: s' nr_def)
    from Write_step_fifo[OF ri wi st a'_def]
    have A: "ring_inv m' (wargs s) a' (nr s)" "wpc_fifo m' (wargs s) a' (nr s) pc'" by simp_all
    have le: "nw s \<le> a'" using z by (simp add: a'_def)
    have B: "\<forall>q. rcall s = Some q \<longrightarrow> rpc_fifo m' (wargs s) a' (nr s) q"
      using inv Write_step_rpc_fifo[OF st _ le]
      by (auto simp: fifo_inv_def)
    have C: "mem (prod_step Posix s) = m'" "wargs (prod_step Posix s) = wargs s"
      "wcall (prod_step Posix s) = Some pc'" "rcall (prod_step Posix s) = rcall s"
      "wrets (prod_step Posix s) = wrets s" "got (prod_step Posix s) = got s"
      by (simp_all add: s')
    from inv A B show ?thesis
      unfolding fifo_inv_def nw' nr' C by simp
  qed
qed

lemma cons_step_fifo:
  assumes inv: "fifo_inv s"
  shows "fifo_inv (cons_step s)"
proof (cases "rcall s")
  case None
  then have "cons_step s = s\<lparr>rcall := Some R_entry\<rparr>" by (simp add: cons_step_def)
  with inv None show ?thesis by (simp add: fifo_inv_def nw_def nr_def)
next
  case (Some pc)
  from inv Some have ri: "ring_inv (mem s) (wargs s) (nw s) (nr s)"
    and wi: "rpc_fifo (mem s) (wargs s) (nw s) (nr s) pc"
    and gt: "got s = map (\<lambda>v. (v, True)) (take (length (got s)) (wargs s))"
    by (simp_all add: fifo_inv_def)
  consider v k where "pc = R_return v k" | "pc = R_panic"
    | "(\<forall>v k. pc \<noteq> R_return v k) \<and> pc \<noteq> R_panic"
    by blast
  then show ?thesis
  proof cases
    case 1
    with Some have s': "cons_step s = s\<lparr>rcall := None, got := got s @ [(v, k)]\<rparr>"
      by (simp add: cons_step_def)
    from wi 1 have k: k and v: "v = wargs s ! (nr s - 1)" and pos: "0 < nr s" by simp_all
    from Some 1 have nrs: "nr s = Suc (length (got s))" by (simp add: nr_def)
    from ri have "nr s \<le> length (wargs s)" by (simp add: ring_inv_def)
    with nrs have lt: "length (got s) < length (wargs s)" by simp
    have G: "got s @ [(v, k)] = map (\<lambda>v. (v, True)) (take (length (got s @ [(v, k)])) (wargs s))"
      using gt k v nrs lt by (simp add: take_Suc_conv_app_nth)
    have nr': "nr (cons_step s) = nr s" using Some 1 by (simp add: s' nr_def)
    have nw': "nw (cons_step s) = nw s" by (simp add: s' nw_def)
    have C: "mem (cons_step s) = mem s" "wargs (cons_step s) = wargs s"
      "rcall (cons_step s) = None" "wcall (cons_step s) = wcall s"
      "wrets (cons_step s) = wrets s" "got (cons_step s) = got s @ [(v, k)]"
      by (simp_all add: s')
    from inv G lt show ?thesis
      unfolding fifo_inv_def nw' nr' C by simp
  next
    case 2
    with wi show ?thesis by simp
  next
    case 3
    obtain m' pc' where st: "Read_step (mem s) pc = (m', pc')"
      by (cases "Read_step (mem s) pc")
    from 3 have s': "cons_step s = s\<lparr>mem := m', rcall := Some pc'\<rparr>"
      using cons_step_call[OF Some _ _ st] by blast
    define c' where "c' = nr s + r_returned (Some pc') - r_returned (Some pc)"
    from r_returned_step[OF st] 3 have z: "r_returned (Some pc) = 0" by blast
    have nr': "nr (cons_step s) = c'"
      using Some z by (simp add: s' nr_def c'_def)
    have nw': "nw (cons_step s) = nw s"
      by (simp add: s' nw_def)
    from Read_step_fifo[OF ri wi st c'_def]
    have A: "ring_inv m' (wargs s) (nw s) c'" "rpc_fifo m' (wargs s) (nw s) c' pc'" by simp_all
    have le: "nr s \<le> c'" using z by (simp add: c'_def)
    have B: "\<forall>q. wcall s = Some q \<longrightarrow> wpc_fifo m' (wargs s) (nw s) c' q"
      using inv Read_step_wpc_fifo[OF st _ le]
      by (auto simp: fifo_inv_def)
    have C: "mem (cons_step s) = m'" "wargs (cons_step s) = wargs s"
      "rcall (cons_step s) = Some pc'" "wcall (cons_step s) = wcall s"
      "wrets (cons_step s) = wrets s" "got (cons_step s) = got s"
      by (simp_all add: s')
    from inv A B show ?thesis
      unfolding fifo_inv_def nw' nr' C by simp
  qed
qed

lemma run_fifo: "fifo_inv s \<Longrightarrow> fifo_inv (run Posix sched s)"
  by (induction sched arbitrary: s) (auto simp: prod_step_fifo cons_step_fifo split: process.splits)

lemma init_fifo: "fifo_inv (init_system vs)"
  by (simp add: fifo_inv_def init_system_def zero_ring_def ring_inv_def nw_def nr_def)

section \<open>Runs of complete calls\<close>

lemma run_append: "run b (xs @ ys) s = run b ys (run b xs s)"
  by (induction xs arbitrary: s) simp_all

lemma run_replicate_add:
  "run b (replicate (i + j) p) s = run b (replicate j p) (run b (replicate i p) s)"
  by (simp add: replicate_add run_append)

lemma write_completes:
  assumes "wcall s = None" and "length (wrets s) < length (wargs s)"
    and "nextIdx (writeIdx (mem s)) \<noteq> readIdx (mem s)"
    and "unat (writeIdx (mem s)) < bufferSize"
  shows "run b (replicate 6 Producer) s =
     s\<lparr>mem := (mem s)\<lparr>buffer := (buffer (mem s))[unat (writeIdx (mem s)) := wargs s ! length (wrets s)],
                       writeIdx := nextIdx (writeIdx (mem s))\<rparr>,
       wrets := wrets s @ [True]\<rparr>"
  using assms by (simp add: eval_nat_numeral prod_step_def Let_def)

lemma read_completes:
  assumes "rcall s = None"
    and "readIdx (mem s) \<noteq> writeIdx (mem s)"
    and "unat (readIdx (mem s)) < bufferSize"
  shows "run b (replicate 6 Consumer) s =
     s\<lparr>mem := (mem s)\<lparr>readIdx := nextIdx (readIdx (mem s))\<rparr>,
       got := got s @ [(buffer (mem s) ! unat (readIdx (mem s)), True)]\<rparr>"
  using assms by (simp add: eval_nat_numeral cons_step_def)

lemma unat_of_nat_idx: "k < bufferSize \<Longrightarrow> unat (of_nat k :: u64) = k"
  by (simp add: unat_of_nat bufferSize_def)

lemma nextIdx_of_nat: "Suc k < bufferSize \<Longrightarrow> nextIdx (of_nat k) = (of_nat (Suc k) :: u64)"
proof -
  assume k: "Suc k < bufferSize"
  then have "unat (of_nat k :: u64) = k" by (intro unat_of_nat_idx) simp
  then have "unat (nextIdx (of_nat k)) = Suc k" using k by (simp add: unat_nextIdx)
  also have "Suc k = unat (of_nat (Suc k) :: u64)" using k unat_of_nat_idx[of "Suc k"] by simp
  finally show ?thesis by (simp only: word_unat_eq_iff)
qed

lemma nextIdx_last: "nextIdx (of_nat (bufferSize - 1)) = (0 :: u64)"
proof -
  have "unat (of_nat (bufferSize - 1) :: u64) = bufferSize - 1"
    using bufferSize_pos by (intro unat_of_nat_idx) simp
  then have "unat (nextIdx (of_nat (bufferSize - 1))) = 0"
    using bufferSize_pos by (simp add: unat_nextIdx)
  then show ?thesis by (simp add: word_unat_eq_iff)
qed

lemma of_nat_idx_neq_0: "0 < k \<Longrightarrow> k < bufferSize \<Longrightarrow> (of_nat k :: u64) \<noteq> 0"
proof
  assume k: "0 < k" "k < bufferSize" and z: "(of_nat k :: u64) = 0"
  from z have "unat (of_nat k :: u64) = 0" by simp
  with unat_of_nat_idx[OF k(2)] k(1) show False by simp
qed

lemma fill_slot:
  assumes "k < length vs" "k < n"
  shows "(take k vs @ replicate (n - k) (0::u64))[k := vs ! k] = take (Suc k) vs @ replicate (n - Suc k) 0"
proof -
  from assms obtain m where m: "n - k = Suc m" by (metis Suc_diff_Suc)
  then have m': "n - Suc k = m" by simp
  from assms have "length (take k vs) = k" by simp
  then have "(take k vs @ replicate (n - k) (0::u64))[k := vs ! k]
      = take k vs @ (replicate (n - k) (0::u64))[0 := vs ! k]"
    by (simp add: list_update_append)
  also have "\<dots> = take k vs @ [vs ! k] @ replicate m 0" by (simp add: m)
  also have "\<dots> = take (Suc k) vs @ replicate (n - Suc k) 0"
    using assms by (simp add: take_Suc_conv_app_nth m')
  finally show ?thesis .
qed

lemma fill_explicit:
  "k \<le> bufferSize - 1 \<Longrightarrow> k \<le> length vs \<Longrightarrow>
   run b (replicate (6 * k) Producer) (init_system vs) = filled vs k"
proof (induction k)
  case 0
  then show ?case by (simp add: filled_def init_system_def zero_ring_def)
next
  case (Suc k)
  then have IH: "run b (replicate (6 * k) Producer) (init_system vs) = filled vs k" by simp
  from Suc.prems have k: "Suc k < bufferSize" "k < bufferSize" "k < length vs" by simp_all
  have idle: "wcall (filled vs k) = None" by (simp add: filled_def init_system_def)
  have more: "length (wrets (filled vs k)) < length (wargs (filled vs k))"
    using k by (simp add: filled_def init_system_def)
  have nf: "nextIdx (writeIdx (mem (filled vs k))) \<noteq> readIdx (mem (filled vs k))"
    using k by (simp add: filled_def nextIdx_of_nat of_nat_idx_neq_0 del: of_nat_Suc)
  have rg: "unat (writeIdx (mem (filled vs k))) < bufferSize"
    using k by (simp add: filled_def unat_of_nat_idx)
  have "6 * Suc k = 6 * k + 6" by simp
  then have "run b (replicate (6 * Suc k) Producer) (init_system vs)
      = run b (replicate 6 Producer) (filled vs k)"
    by (simp only: run_replicate_add IH)
  also have "\<dots> = filled vs (Suc k)"
    unfolding write_completes[OF idle more nf rg]
    using k
    by (simp add: filled_def init_system_def unat_of_nat_idx nextIdx_of_nat fill_slot
        replicate_append_same del: of_nat_Suc)
  finally show ?case .
qed

lemma write_full_windows:
  assumes "wcall s = None" and "length (wrets s) < length (wargs s)"
    and "nextIdx (writeIdx (mem s)) = readIdx (mem s)"
    and "unat (writeIdx (mem s)) < bufferSize"
  shows "run Windows (replicate 7 Producer) s =
     s\<lparr>mem := (mem s)\<lparr>buffer := (buffer (mem s))[unat (writeIdx (mem s)) := wargs s ! length (wrets s)],
                       writeIdx := nextIdx (writeIdx (mem s))\<rparr>,
       wrets := wrets s @ [True]\<rparr>"
  using assms by (simp add: eval_nat_numeral prod_step_def Let_def)

lemma nextIdx_0: "nextIdx 0 = 1"
  using nextIdx_of_nat[of 0] bufferSize_gt1 by simp

lemma filled_sel:
  "mem (filled vs k) = \<lparr>buffer = take k vs @ replicate (bufferSize - k) 0, writeIdx = of_nat k, readIdx = 0\<rparr>"
  "wargs (filled vs k) = vs" "wcall (filled vs k) = None" "wrets (filled vs k) = replicate k True"
  "rcall (filled vs k) = None" "got (filled vs k) = []"
  by (simp_all add: filled_def init_system_def)

lemma wargs_prod_step: "wargs (prod_step b s) = wargs s"
  by (auto simp: prod_step_def split: option.splits wpc.splits prod.splits)

lemma wargs_cons_step: "wargs (cons_step s) = wargs s"
  by (auto simp: cons_step_def split: option.splits rpc.splits prod.splits)

lemma wargs_run: "wargs (run b sched s) = wargs s"
  by (induction sched arbitrary: s) (simp_all add: wargs_prod_step wargs_cons_step split: process.splits)

lemma fifo_reach: "fifo_inv (run Posix sched (init_system vs))"
  by (rule run_fifo) (rule init_fifo)

lemma fifo_got: "fifo_inv s \<Longrightarrow> got s = map (\<lambda>v. (v, True)) (take (length (got s)) (wargs s))"
  by (simp add: fifo_inv_def)


lemma fifo_idle_read:
  assumes inv: "fifo_inv s" and idle: "rcall s = None" and avail: "nr s < nw s"
  shows "run Posix (replicate 6 Consumer) s =
     s\<lparr>mem := (mem s)\<lparr>readIdx := nextIdx (readIdx (mem s))\<rparr>,
       got := got s @ [(buffer (mem s) ! unat (readIdx (mem s)), True)]\<rparr>"
proof (rule read_completes[OF idle])
  from inv have ri: "ring_inv (mem s) (wargs s) (nw s) (nr s)" by (simp add: fifo_inv_def)
  from empty_iff[OF ri] avail show "readIdx (mem s) \<noteq> writeIdx (mem s)" by simp
  from ri bufferSize_pos show "unat (readIdx (mem s)) < bufferSize" by (simp add: ring_inv_def)
qed


lemma w_waiting_returned: "w_waiting c \<Longrightarrow> w_returned c = 0"
  by (cases c rule: w_waiting.cases) simp_all

lemma blocked_step:
  assumes inv: "fifo_inv s" and full: "nw s = nr s + (bufferSize - 1)" and wt: "w_waiting (wcall s)"
  shows "w_waiting (wcall (prod_step Posix s)) \<and> mem (prod_step Posix s) = mem s \<and>
         wrets (prod_step Posix s) = wrets s \<and> got (prod_step Posix s) = got s \<and>
         rcall (prod_step Posix s) = rcall s"
proof -
  from inv have ri: "ring_inv (mem s) (wargs s) (nw s) (nr s)" by (simp add: fifo_inv_def)
  from full_iff[OF ri] full have f: "nextIdx (writeIdx (mem s)) = readIdx (mem s)" by simp
  show ?thesis
  proof (cases "wcall s" rule: w_waiting.cases)
    case 1
    then show ?thesis by (simp add: prod_step_def)
  next
    case (2 v)
    then show ?thesis by (simp add: prod_step_def Let_def)
  next
    case (3 v w n)
    with inv have "w = writeIdx (mem s)" "n = nextIdx w" by (simp_all add: fifo_inv_def)
    with 3 f show ?thesis by (simp add: prod_step_def)
  next
    case (4 v w n d)
    then show ?thesis by (simp add: prod_step_def)
  qed (use wt in simp_all)
qed

lemma blocked_run:
  assumes inv: "fifo_inv s" and full: "nw s = nr s + (bufferSize - 1)" and wt: "w_waiting (wcall s)"
  shows "w_waiting (wcall (run Posix (replicate k Producer) s)) \<and>
         mem (run Posix (replicate k Producer) s) = mem s \<and>
         wrets (run Posix (replicate k Producer) s) = wrets s \<and>
         got (run Posix (replicate k Producer) s) = got s \<and>
         rcall (run Posix (replicate k Producer) s) = rcall s"
  using assms
proof (induction k arbitrary: s)
  case 0
  then show ?case by simp
next
  case (Suc k)
  let ?t = "prod_step Posix s"
  from blocked_step[OF Suc.prems] have st: "w_waiting (wcall ?t)" "mem ?t = mem s"
      "wrets ?t = wrets s" "got ?t = got s" "rcall ?t = rcall s" by simp_all
  have inv': "fifo_inv ?t" by (rule prod_step_fifo[OF Suc.prems(1)])
  have "nw ?t = nw s" "nr ?t = nr s"
    using st Suc.prems(3) by (simp_all add: nw_def nr_def w_waiting_returned)
  with Suc.prems(2) have full': "nw ?t = nr ?t + (bufferSize - 1)" by simp
  from Suc.IH[OF inv' full' st(1)] st show ?case by simp
qed

lemma finish_waiting:
  assumes inv: "fifo_inv s" and wt: "w_waiting (wcall s)"
    and more: "length (wrets s) < length (wargs s)"
    and room: "nw s < nr s + (bufferSize - 1)"
  shows "\<exists>m\<le>6. wcall (run Posix (replicate m Producer) s) = None \<and>
           wrets (run Posix (replicate m Producer) s) = wrets s @ [True] \<and>
           got (run Posix (replicate m Producer) s) = got s \<and>
           rcall (run Posix (replicate m Producer) s) = rcall s"
proof -
  from inv have ri: "ring_inv (mem s) (wargs s) (nw s) (nr s)" by (simp add: fifo_inv_def)
  from full_iff[OF ri] room have nf: "nextIdx (writeIdx (mem s)) \<noteq> readIdx (mem s)" by simp
  from ri bufferSize_pos have rg: "unat (writeIdx (mem s)) < bufferSize" by (simp add: ring_inv_def)
  show ?thesis
  proof (cases "wcall s" rule: w_waiting.cases)
    case 1
    with more nf rg have "wcall (run Posix (replicate 6 Producer) s) = None \<and>
           wrets (run Posix (replicate 6 Producer) s) = wrets s @ [True] \<and>
           got (run Posix (replicate 6 Producer) s) = got s \<and>
           rcall (run Posix (replicate 6 Producer) s) = rcall s"
      by (simp add: write_completes)
    then show ?thesis by blast
  next
    case (2 v)
    with nf rg have "wcall (run Posix (replicate 5 Producer) s) = None \<and>
           wrets (run Posix (replicate 5 Producer) s) = wrets s @ [True] \<and>
           got (run Posix (replicate 5 Producer) s) = got s \<and>
           rcall (run Posix (replicate 5 Producer) s) = rcall s"
      by (simp add: eval_nat_numeral prod_step_def Let_def)
    moreover have "(5::nat) \<le> 6" by simp
    ultimately show ?thesis by blast
  next
    case (3 v w n)
    with inv have "w = writeIdx (mem s)" "n = nextIdx w" by (simp_all add: fifo_inv_def)
    with 3 nf rg have "wcall (run Posix (replicate 4 Producer) s) = None \<and>
           wrets (run Posix (replicate 4 Producer) s) = wrets s @ [True] \<and>
           got (run Posix (replicate 4 Producer) s) = got s \<and>
           rcall (run Posix (replicate 4 Producer) s) = rcall s"
      by (simp add: eval_nat_numeral prod_step_def Let_def)
    moreover have "(4::nat) \<le> 6" by simp
    ultimately show ?thesis by blast
  next
    case (4 v w n d)
    with inv have "w = writeIdx (mem s)" "n = nextIdx w" by (simp_all add: fifo_inv_def)
    with 4 nf rg have "wcall (run Posix (replicate 5 Producer) s) = None \<and>
           wrets (run Posix (replicate 5 Producer) s) = wrets s @ [True] \<and>
           got (run Posix (replicate 5 Producer) s) = got s \<and>
           rcall (run Posix (replicate 5 Producer) s) = rcall s"
      by (simp add: eval_nat_numeral prod_step_def Let_def)
    moreover have "(5::nat) \<le> 6" by simp
    ultimately show ?thesis by blast
  qed (use wt in simp_all)
qed

lemma nw_waiting: "w_waiting (wcall s) \<Longrightarrow> nw s = length (wrets s)"
  by (simp add: nw_def w_waiting_returned)

lemma nr_idle: "rcall s = None \<Longrightarrow> nr s = length (got s)"
  by (simp add: nr_def)



lemma Write_not_full:
  "nextIdx (writeIdx rb) \<noteq> readIdx rb \<Longrightarrow> unat (writeIdx rb) < bufferSize \<Longrightarrow>
   Write b (4 + k) rb v =
     Some (rb\<lparr>buffer := (buffer rb)[unat (writeIdx rb) := v], writeIdx := nextIdx (writeIdx rb)\<rparr>,
           Returned True)"
  by (cases k) (simp_all add: Write_def eval_nat_numeral Let_def)

lemma Read_not_empty:
  "readIdx rb \<noteq> writeIdx rb \<Longrightarrow> unat (readIdx rb) < bufferSize \<Longrightarrow>
   Read (4 + k) rb = Some (rb\<lparr>readIdx := nextIdx (readIdx rb)\<rparr>, Returned (buffer rb ! unat (readIdx rb), True))"
  by (cases k) (simp_all add: Read_def eval_nat_numeral)



text \<open>
  With the looping test, at every moment of every interleaving at most
  \<open>bufferSize - 1\<close> values are published and not yet consumed.
\<close>

lemma posix_unread_bound:
  "nr (run Posix sched (init_system vs)) \<le> nw (run Posix sched (init_system vs)) \<and>
   nw (run Posix sched (init_system vs)) \<le> nr (run Posix sched (init_system vs)) + (bufferSize - 1)"
  using fifo_reach[of sched vs] by (simp add: fifo_inv_def ring_inv_def)

section \<open>The single fullness test of the Windows variant\<close>

lemma windows_loses_data:
  assumes len: "length vs = bufferSize + 1"
  shows "got (run Windows
            (replicate (6 * (bufferSize - 1)) Producer @ replicate 7 Producer @
             replicate 6 Producer @ replicate 6 Consumer) (init_system vs))
         = [(vs ! bufferSize, True)]"
proof -
  define s1 where "s1 = filled vs (bufferSize - 1)"
  have r1: "run Windows (replicate (6 * (bufferSize - 1)) Producer) (init_system vs) = s1"
    unfolding s1_def using len by (intro fill_explicit) simp_all
  have uw: "unat (of_nat (bufferSize - 1) :: u64) = bufferSize - 1"
    using bufferSize_pos by (intro unat_of_nat_idx) simp
  define B1 where "B1 = take (bufferSize - 1) vs @ replicate (bufferSize - (bufferSize - 1)) (0::u64)"
  have lB1: "length B1 = bufferSize" using len bufferSize_pos by (simp add: B1_def)
  have m1: "mem s1 = \<lparr>buffer = B1, writeIdx = of_nat (bufferSize - 1), readIdx = 0\<rparr>"
    by (simp add: s1_def filled_sel B1_def)
  have s1: "wargs s1 = vs" "wcall s1 = None" "wrets s1 = replicate (bufferSize - 1) True"
      "rcall s1 = None" "got s1 = []"
    by (simp_all add: s1_def filled_sel)
  define s2 where "s2 = run Windows (replicate 7 Producer) s1"
  have "s2 = s1\<lparr>mem := (mem s1)\<lparr>buffer := (buffer (mem s1))[unat (writeIdx (mem s1)) := wargs s1 ! length (wrets s1)],
                       writeIdx := nextIdx (writeIdx (mem s1))\<rparr>,
       wrets := wrets s1 @ [True]\<rparr>"
    unfolding s2_def
  proof (rule write_full_windows)
    show "wcall s1 = None" by (simp add: s1)
    show "length (wrets s1) < length (wargs s1)" using len by (simp add: s1)
    show "nextIdx (writeIdx (mem s1)) = readIdx (mem s1)" using nextIdx_last by (simp add: m1)
    show "unat (writeIdx (mem s1)) < bufferSize" using bufferSize_pos uw by (simp add: m1)
  qed
  then have s2: "mem s2 = \<lparr>buffer = B1[bufferSize - 1 := vs ! (bufferSize - 1)], writeIdx = 0, readIdx = 0\<rparr>"
      "wcall s2 = None" "length (wrets s2) = bufferSize" "wargs s2 = vs" "rcall s2 = None" "got s2 = []"
    using bufferSize_pos uw nextIdx_last by (simp_all add: m1 s1)
  define s3 where "s3 = run Windows (replicate 6 Producer) s2"
  have "s3 = s2\<lparr>mem := (mem s2)\<lparr>buffer := (buffer (mem s2))[unat (writeIdx (mem s2)) := wargs s2 ! length (wrets s2)],
                       writeIdx := nextIdx (writeIdx (mem s2))\<rparr>,
       wrets := wrets s2 @ [True]\<rparr>"
    unfolding s3_def
  proof (rule write_completes)
    show "wcall s2 = None" by (simp add: s2)
    show "length (wrets s2) < length (wargs s2)" using len by (simp add: s2)
    show "nextIdx (writeIdx (mem s2)) \<noteq> readIdx (mem s2)" by (simp add: s2 nextIdx_0)
    show "unat (writeIdx (mem s2)) < bufferSize" using bufferSize_pos by (simp add: s2)
  qed
  then have s3: "mem s3 = \<lparr>buffer = B1[bufferSize - 1 := vs ! (bufferSize - 1), 0 := vs ! bufferSize],
        writeIdx = 1, readIdx = 0\<rparr>"
      "rcall s3 = None" "got s3 = []"
    by (simp_all add: s2 nextIdx_0)
  have "run Windows (replicate 6 Consumer) s3
      = s3\<lparr>mem := (mem s3)\<lparr>readIdx := nextIdx (readIdx (mem s3))\<rparr>,
           got := got s3 @ [(buffer (mem s3) ! unat (readIdx (mem s3)), True)]\<rparr>"
  proof (rule read_completes)
    show "rcall s3 = None" by (simp add: s3)
    show "readIdx (mem s3) \<noteq> writeIdx (mem s3)" by (simp add: s3)
    show "unat (readIdx (mem s3)) < bufferSize" using bufferSize_pos by (simp add: s3)
  qed
  then have "got (run Windows (replicate 6 Consumer) s3) = [(vs ! bufferSize, True)]"
    using bufferSize_pos lB1 by (simp add: s3)
  then show ?thesis
    by (simp only: run_append r1 s2_def[symmetric] s3_def[symmetric])
qed

text \<open>
  C1. The claim asks for a looping fullness test in every variant. The Windows variant
  tests once. On a fresh segment the producer writes the 1025 values 0, 1, ..., 1024
  while the consumer does nothing: the first 1023 calls fill the segment, call 1024
  finds it full, waits once and stores all the same, which makes \<^verbatim>\<open>writeIdx\<close> equal to
  \<^verbatim>\<open>readIdx\<close>, and call 1025 stores into slot 0, which holds the unread value 0. The
  consumer's first \<^verbatim>\<open>Read\<close> then returns 1024 instead of 0.
\<close>

theorem C1_windows_single_check_overwrites:
  "got (run Windows
         (replicate (6 * 1023) Producer @ replicate 7 Producer @ replicate 6 Producer @
          replicate 6 Consumer)
         (init_system (map of_nat [0..<1025]))) = [(1024, True)]"
  using windows_loses_data [of "map of_nat [0..<1025]"]
  by (simp add: bufferSize_def)

section \<open>Order of delivery\<close>



section \<open>The capacity boundary\<close>

text \<open>
  C5. In the POSIX variant, on a fresh segment, the first \<open>bufferSize - 1\<close> calls of
  \<^verbatim>\<open>Write\<close> return \<open>True\<close> within their own six steps each, and leave the segment
  full. The next \<^verbatim>\<open>Write\<close> does not return, however many steps the producer takes.
  After one \<^verbatim>\<open>Read\<close>, which returns the first value, that \<^verbatim>\<open>Write\<close> returns, and
  the one after it does not.
\<close>

theorem C5_capacity_boundary:
  assumes len: "bufferSize < length vs"
  shows "let s1 = run Posix (replicate (6 * (bufferSize - 1)) Producer) (init_system vs) in
           wrets s1 = replicate (bufferSize - 1) True \<and> wcall s1 = None \<and>
           nextIdx (writeIdx (mem s1)) = readIdx (mem s1) \<and>
           (\<forall>k. let s2 = run Posix (replicate k Producer) s1 in
                  wrets s2 = wrets s1 \<and>
                  (let s3 = run Posix (replicate 6 Consumer) s2 in
                     got s3 = [(vs ! 0, True)] \<and>
                     (\<forall>j\<ge>6. wrets (run Posix (replicate j Producer) s3) = replicate bufferSize True)))"
proof -
  define s1 where "s1 = run Posix (replicate (6 * (bufferSize - 1)) Producer) (init_system vs)"
  have s1f: "s1 = filled vs (bufferSize - 1)"
    unfolding s1_def using len by (intro fill_explicit) simp_all
  have A: "wrets s1 = replicate (bufferSize - 1) True" "wcall s1 = None" "rcall s1 = None" "got s1 = []"
    by (simp_all add: s1f filled_sel)
  have B: "nextIdx (writeIdx (mem s1)) = readIdx (mem s1)"
    using nextIdx_last by (simp add: s1f filled_sel)
  have inv1: "fifo_inv s1" unfolding s1_def by (rule fifo_reach)
  have c1: "nw s1 = nr s1 + (bufferSize - 1)" using A by (simp add: nw_def nr_def)
  have C: "wrets s2 = wrets s1 \<and>
        (let s3 = run Posix (replicate 6 Consumer) s2 in
           got s3 = [(vs ! 0, True)] \<and>
           (\<forall>j\<ge>6. wrets (run Posix (replicate j Producer) s3) = replicate bufferSize True))"
    if s2_def: "s2 = run Posix (replicate k Producer) s1" for k s2
  proof -
    from blocked_run[OF inv1 c1, of k] A
    have s2: "w_waiting (wcall s2)" "mem s2 = mem s1" "wrets s2 = wrets s1" "got s2 = []" "rcall s2 = None"
      by (simp_all add: s2_def)
    have inv2: "fifo_inv s2" unfolding s2_def s1_def run_append[symmetric] by (rule fifo_reach)
    have wa2: "wargs s2 = vs" by (simp add: s2_def s1_def wargs_run init_system_def)
    have c2: "nw s2 = bufferSize - 1" "nr s2 = 0" using s2 A by (simp_all add: nw_waiting nr_idle)
    define s3 where "s3 = run Posix (replicate 6 Consumer) s2"
    have "s3 = s2\<lparr>mem := (mem s2)\<lparr>readIdx := nextIdx (readIdx (mem s2))\<rparr>,
       got := got s2 @ [(buffer (mem s2) ! unat (readIdx (mem s2)), True)]\<rparr>"
      unfolding s3_def using inv2 s2 c2 bufferSize_gt1 by (intro fifo_idle_read) simp_all
    then have s3: "wcall s3 = wcall s2" "wrets s3 = wrets s1" "rcall s3 = None" "length (got s3) = 1"
        "wargs s3 = vs"
      using s2 wa2 by simp_all
    have inv3: "fifo_inv s3" unfolding s3_def s2_def s1_def run_append[symmetric] by (rule fifo_reach)
    from len bufferSize_pos have ne: "vs \<noteq> []" by auto
    from fifo_got[OF inv3] s3 ne have g3: "got s3 = [(vs ! 0, True)]"
      by (simp add: take_Suc_conv_app_nth)
    have c3: "nw s3 = bufferSize - 1" "nr s3 = 1" using s3 s2 A by (simp_all add: nw_waiting nr_idle)
    have "length (wrets s3) < length (wargs s3)" using s3 A len by simp
    moreover have "nw s3 < nr s3 + (bufferSize - 1)" using c3 by simp
    moreover have "w_waiting (wcall s3)" using s3 s2 by simp
    ultimately obtain m where m: "m \<le> 6" "wcall (run Posix (replicate m Producer) s3) = None"
        "wrets (run Posix (replicate m Producer) s3) = wrets s3 @ [True]"
        "got (run Posix (replicate m Producer) s3) = got s3"
        "rcall (run Posix (replicate m Producer) s3) = rcall s3"
      using finish_waiting[OF inv3] by blast
    define s4 where "s4 = run Posix (replicate m Producer) s3"
    have inv4: "fifo_inv s4" unfolding s4_def s3_def s2_def s1_def run_append[symmetric] by (rule fifo_reach)
    have "replicate (bufferSize - 1) True @ [True] = replicate (Suc (bufferSize - 1)) True"
      by (simp add: replicate_append_same)
    also have "Suc (bufferSize - 1) = bufferSize" using bufferSize_pos by simp
    finally have w4: "wrets s4 = replicate bufferSize True"
      using m(3) s3 A by (simp add: s4_def)
    have s4: "wcall s4 = None" "rcall s4 = None" "length (got s4) = 1" using m s3 by (simp_all add: s4_def)
    have c4: "nw s4 = nr s4 + (bufferSize - 1)"
      using s4 w4 bufferSize_pos by (simp add: nw_def nr_def)
    have D: "wrets (run Posix (replicate j Producer) s3) = replicate bufferSize True" if "6 \<le> j" for j
    proof -
      from that m(1) have "m + (j - m) = j" by simp
      with run_replicate_add[of Posix m "j - m" Producer s3]
      have "run Posix (replicate j Producer) s3 = run Posix (replicate (j - m) Producer) s4"
        unfolding s4_def by simp
      with blocked_run[OF inv4 c4, of "j - m"] s4 w4 show ?thesis by simp
    qed
    from s2 g3 D show ?thesis by (simp add: s3_def)
  qed
  show ?thesis
    unfolding Let_def s1_def[symmetric]
    using A(1,2) B C[OF refl, unfolded Let_def] by (intro conjI allI) blast+
qed

theorem C5_capacity_boundary_witness:
  "bufferSize < length (replicate 1025 (7::u64)) \<and>
   (let s1 = run Posix (replicate (6 * (bufferSize - 1)) Producer) (init_system (replicate 1025 7)) in
           wrets s1 = replicate (bufferSize - 1) True \<and> wcall s1 = None \<and>
           nextIdx (writeIdx (mem s1)) = readIdx (mem s1) \<and>
           (\<forall>k. let s2 = run Posix (replicate k Producer) s1 in
                  wrets s2 = wrets s1 \<and>
                  (let s3 = run Posix (replicate 6 Consumer) s2 in
                     got s3 = [(replicate 1025 7 ! 0, True)] \<and>
                     (\<forall>j\<ge>6. wrets (run Posix (replicate j Producer) s3) = replicate bufferSize True))))"
proof -
  have h: "bufferSize < length (replicate 1025 (7::u64))" by (simp add: bufferSize_def)
  from h C5_capacity_boundary [OF h] show ?thesis by (rule conjI)
qed

section \<open>Calls running alone: results and effects\<close>

lemma Write_run_post:
  "Write_run b fuel rb pc = Some (rb', res) \<Longrightarrow>
   (\<forall>r. res = Returned r \<longrightarrow> rb' = w_post rb pc) \<and>
   (res = Panicked \<longrightarrow> rb' = rb \<and> (\<forall>v w n. pc \<noteq> W_publish v w n))"
proof (induction fuel arbitrary: rb pc)
  case 0
  then show ?case by (cases pc) auto
next
  case (Suc k)
  show ?case
  proof (cases pc)
    case (W_entry v)
    with Suc.prems have "Write_run b k rb (W_check v (writeIdx rb) (nextIdx (writeIdx rb))) = Some (rb', res)"
      by (simp add: Let_def)
    from Suc.IH[OF this] W_entry show ?thesis by simp
  next
    case (W_check v w n)
    show ?thesis
    proof (cases "n = readIdx rb")
      case True
      with Suc.prems W_check have "Write_run b k rb (W_spin v w n (5 * Microsecond)) = Some (rb', res)" by simp
      from Suc.IH[OF this] W_check show ?thesis by simp
    next
      case False
      with Suc.prems W_check have "Write_run b k rb (W_store v w n) = Some (rb', res)" by simp
      from Suc.IH[OF this] W_check show ?thesis by simp
    qed
  next
    case (W_spin v w n d)
    show ?thesis
    proof (cases b)
      case Posix
      with Suc.prems W_spin have "Write_run b k rb (W_check v w n) = Some (rb', res)" by simp
      from Suc.IH[OF this] W_spin show ?thesis by simp
    next
      case Windows
      with Suc.prems W_spin have "Write_run b k rb (W_store v w n) = Some (rb', res)" by simp
      from Suc.IH[OF this] W_spin show ?thesis by simp
    qed
  next
    case (W_store v w n)
    show ?thesis
    proof (cases "unat w < bufferSize")
      case True
      with Suc.prems W_store
      have "Write_run b k (rb\<lparr>buffer := (buffer rb)[unat w := v]\<rparr>) (W_publish v w n) = Some (rb', res)"
        by simp
      from Suc.IH[OF this] W_store show ?thesis by auto
    next
      case False
      with Suc.prems W_store have "Write_run b k rb W_panic = Some (rb', res)" by simp
      with W_store show ?thesis by (cases k) auto
    qed
  next
    case (W_publish v w n)
    with Suc.prems have "Write_run b k (rb\<lparr>writeIdx := n\<rparr>) (W_return True) = Some (rb', res)" by simp
    with W_publish show ?thesis by (cases k) auto
  next
    case (W_return r)
    with Suc.prems show ?thesis by auto
  next
    case W_panic
    with Suc.prems show ?thesis by auto
  qed
qed

lemma Read_run_post:
  "Read_run fuel rb pc = Some (rb', res) \<Longrightarrow>
   (\<forall>x. res = Returned x \<longrightarrow> rb' = r_post rb pc) \<and> (res = Panicked \<longrightarrow> rb' = rb)"
proof (induction fuel arbitrary: rb pc)
  case 0
  then show ?case by (cases pc) auto
next
  case (Suc k)
  show ?case
  proof (cases pc)
    case R_entry
    with Suc.prems have "Read_run k rb (R_check (readIdx rb)) = Some (rb', res)" by simp
    from Suc.IH[OF this] R_entry show ?thesis by simp
  next
    case (R_check r)
    show ?thesis
    proof (cases "r = writeIdx rb")
      case True
      with Suc.prems R_check have "Read_run k rb (R_spin r (1 * Microsecond)) = Some (rb', res)" by simp
      from Suc.IH[OF this] R_check show ?thesis by simp
    next
      case False
      with Suc.prems R_check have "Read_run k rb (R_load r) = Some (rb', res)" by simp
      from Suc.IH[OF this] R_check show ?thesis by simp
    qed
  next
    case (R_spin r d)
    with Suc.prems have "Read_run k rb (R_check r) = Some (rb', res)" by simp
    from Suc.IH[OF this] R_spin show ?thesis by simp
  next
    case (R_load r)
    show ?thesis
    proof (cases "unat r < bufferSize")
      case True
      with Suc.prems R_load have "Read_run k rb (R_advance r (buffer rb ! unat r)) = Some (rb', res)" by simp
      from Suc.IH[OF this] R_load show ?thesis by simp
    next
      case False
      with Suc.prems R_load have "Read_run k rb R_panic = Some (rb', res)" by simp
      with R_load show ?thesis by (cases k) auto
    qed
  next
    case (R_advance r v)
    with Suc.prems have "Read_run k (rb\<lparr>readIdx := nextIdx r\<rparr>) (R_return v True) = Some (rb', res)" by simp
    with R_advance show ?thesis by (cases k) auto
  next
    case (R_return v ok)
    with Suc.prems show ?thesis by auto
  next
    case R_panic
    with Suc.prems show ?thesis by auto
  qed
qed

lemma Write_run_ok:
  "idx_ok rb \<Longrightarrow> wpc_ok pc \<Longrightarrow> Write_run b fuel rb pc = Some (rb', res) \<Longrightarrow> res = Returned True"
proof (induction fuel arbitrary: rb pc)
  case 0
  then show ?case by (cases pc) auto
next
  case (Suc k)
  obtain rb1 pc1 where st: "Write_step b rb pc = (rb1, pc1)" by (cases "Write_step b rb pc")
  from Write_step_ok[OF Suc.prems(1,2) st] have ok1: "idx_ok rb1" "wpc_ok pc1" by simp_all
  show ?case
  proof (cases "(\<exists>r. pc = W_return r) \<or> pc = W_panic")
    case True
    with Suc.prems show ?thesis by auto
  next
    case False
    with Suc.prems(3) st have "Write_run b k rb1 pc1 = Some (rb', res)"
      by (cases pc) (simp_all del: Write_step.simps)
    from Suc.IH[OF ok1 this] show ?thesis .
  qed
qed

lemma Read_run_ok:
  "idx_ok rb \<Longrightarrow> rpc_ok pc \<Longrightarrow> Read_run fuel rb pc = Some (rb', res) \<Longrightarrow> \<exists>x. res = Returned (x, True)"
proof (induction fuel arbitrary: rb pc)
  case 0
  then show ?case by (cases pc) auto
next
  case (Suc k)
  obtain rb1 pc1 where st: "Read_step rb pc = (rb1, pc1)" by (cases "Read_step rb pc")
  from Read_step_ok[OF Suc.prems(1,2) st] have ok1: "idx_ok rb1" "rpc_ok pc1" by simp_all
  show ?case
  proof (cases "(\<exists>v r. pc = R_return v r) \<or> pc = R_panic")
    case True
    with Suc.prems show ?thesis by auto
  next
    case False
    with Suc.prems(3) st have "Read_run k rb1 pc1 = Some (rb', res)"
      by (cases pc) (simp_all del: Read_step.simps)
    from Suc.IH[OF ok1 this] show ?thesis .
  qed
qed

lemma Write_posix_full_waits:
  assumes "nextIdx (writeIdx rb) = readIdx rb"
  shows "Write_run Posix fuel rb (W_check v (writeIdx rb) (nextIdx (writeIdx rb))) = None \<and>
         Write_run Posix fuel rb (W_spin v (writeIdx rb) (nextIdx (writeIdx rb)) d) = None"
  using assms by (induction fuel arbitrary: d) simp_all

lemma Write_posix_full: "nextIdx (writeIdx rb) = readIdx rb \<Longrightarrow> Write Posix fuel rb v = None"
  using Write_posix_full_waits[of rb] by (cases fuel) (simp_all add: Write_def Let_def)

lemma Read_empty_waits:
  assumes "readIdx rb = writeIdx rb"
  shows "Read_run fuel rb (R_check (readIdx rb)) = None \<and> Read_run fuel rb (R_spin (readIdx rb) d) = None"
  using assms by (induction fuel arbitrary: d) simp_all

lemma Read_empty: "readIdx rb = writeIdx rb \<Longrightarrow> Read fuel rb = None"
  using Read_empty_waits[of rb] by (cases fuel) (simp_all add: Read_def)

lemma Write_step_frame: "Write_step b rb pc = (rb', pc') \<Longrightarrow> readIdx rb' = readIdx rb"
  by (cases pc; cases b) (auto simp: Let_def split: if_splits)

lemma Read_step_frame:
  "Read_step rb pc = (rb', pc') \<Longrightarrow> writeIdx rb' = writeIdx rb \<and> buffer rb' = buffer rb"
  by (cases pc) (auto split: if_splits)

lemma prod_step_frame: "readIdx (mem (prod_step b s)) = readIdx (mem s)"
proof (cases "wcall s")
  case None
  then show ?thesis by (simp add: prod_step_def)
next
  case (Some pc)
  obtain m' pc' where st: "Write_step b (mem s) pc = (m', pc')" by (cases "Write_step b (mem s) pc")
  consider r where "pc = W_return r" | "pc = W_panic" | "(\<forall>r. pc \<noteq> W_return r) \<and> pc \<noteq> W_panic"
    by blast
  then show ?thesis
  proof cases
    case 1
    with Some show ?thesis by (simp add: prod_step_def)
  next
    case 2
    with Some show ?thesis by (simp add: prod_step_def)
  next
    case 3
    then have "prod_step b s = s\<lparr>mem := m', wcall := Some pc'\<rparr>"
      using prod_step_call[OF Some _ _ st] by blast
    with Write_step_frame[OF st] show ?thesis by simp
  qed
qed

lemma cons_step_frame:
  "writeIdx (mem (cons_step s)) = writeIdx (mem s) \<and> buffer (mem (cons_step s)) = buffer (mem s)"
proof (cases "rcall s")
  case None
  then show ?thesis by (simp add: cons_step_def)
next
  case (Some pc)
  obtain m' pc' where st: "Read_step (mem s) pc = (m', pc')" by (cases "Read_step (mem s) pc")
  consider v k where "pc = R_return v k" | "pc = R_panic"
    | "(\<forall>v k. pc \<noteq> R_return v k) \<and> pc \<noteq> R_panic"
    by blast
  then show ?thesis
  proof cases
    case 1
    with Some show ?thesis by (simp add: cons_step_def)
  next
    case 2
    with Some show ?thesis by (simp add: cons_step_def)
  next
    case 3
    then have "cons_step s = s\<lparr>mem := m', rcall := Some pc'\<rparr>"
      using cons_step_call[OF Some _ _ st] by blast
    with Read_step_frame[OF st] show ?thesis by simp
  qed
qed




text \<open>
  The hypothesis on the cursors below is needed: with a cursor at or beyond
  \<open>bufferSize\<close>, which no run from a fresh segment reaches, the index expression
  panics.
\<close>

lemma Write_out_of_range_panics:
  "bufferSize \<le> unat (writeIdx rb) \<Longrightarrow> nextIdx (writeIdx rb) \<noteq> readIdx rb \<Longrightarrow>
   Write b 3 rb v = Some (rb, Panicked)"
  by (simp add: Write_def eval_nat_numeral Let_def)

lemma Read_out_of_range_panics:
  "bufferSize \<le> unat (readIdx rb) \<Longrightarrow> readIdx rb \<noteq> writeIdx rb \<Longrightarrow>
   Read 3 rb = Some (rb, Panicked)"
  by (simp add: Read_def eval_nat_numeral)

text \<open>
  C7. \<^verbatim>\<open>Write\<close> and \<^verbatim>\<open>Read\<close> have no failure result. On a segment whose cursors are in
  range, a call that runs alone either has not returned yet or has returned \<open>True\<close>
  (for \<^verbatim>\<open>Read\<close>: a value paired with \<open>True\<close>); it returns within four steps when the
  segment is not full (not empty); the POSIX \<^verbatim>\<open>Write\<close> on a full segment and \<^verbatim>\<open>Read\<close> on
  an empty one never return while the other process does nothing. Under every
  interleaving every returned value is \<open>True\<close> and no call panics.
\<close>

theorem C7_no_failure_result:
  assumes "unat (writeIdx rb) < bufferSize" and "unat (readIdx rb) < bufferSize"
  shows "(\<forall>fuel v. Write b fuel rb v = None \<or> (\<exists>rb'. Write b fuel rb v = Some (rb', Returned True))) \<and>
         (\<forall>fuel. Read fuel rb = None \<or> (\<exists>rb' x. Read fuel rb = Some (rb', Returned (x, True)))) \<and>
         (nextIdx (writeIdx rb) \<noteq> readIdx rb \<longrightarrow> (\<forall>v. \<exists>rb'. Write b 4 rb v = Some (rb', Returned True))) \<and>
         (readIdx rb \<noteq> writeIdx rb \<longrightarrow> (\<exists>rb' x. Read 4 rb = Some (rb', Returned (x, True)))) \<and>
         (nextIdx (writeIdx rb) = readIdx rb \<longrightarrow> (\<forall>fuel v. Write Posix fuel rb v = None)) \<and>
         (readIdx rb = writeIdx rb \<longrightarrow> (\<forall>fuel. Read fuel rb = None)) \<and>
         (\<forall>sched vs.
            list_all (\<lambda>r. r)
              (wrets (run b sched \<lparr>mem = rb, wargs = vs, wcall = None, wrets = [], rcall = None, got = []\<rparr>)) \<and>
            list_all snd
              (got (run b sched \<lparr>mem = rb, wargs = vs, wcall = None, wrets = [], rcall = None, got = []\<rparr>)) \<and>
            wcall (run b sched \<lparr>mem = rb, wargs = vs, wcall = None, wrets = [], rcall = None, got = []\<rparr>)
              \<noteq> Some W_panic \<and>
            rcall (run b sched \<lparr>mem = rb, wargs = vs, wcall = None, wrets = [], rcall = None, got = []\<rparr>)
              \<noteq> Some R_panic)"
proof -
  from assms have ok: "idx_ok rb" by (simp add: idx_ok_def)
  have A: "Write b fuel rb v = None \<or> (\<exists>rb'. Write b fuel rb v = Some (rb', Returned True))" for fuel v
  proof (cases "Write b fuel rb v")
    case None
    then show ?thesis by simp
  next
    case (Some p)
    obtain rb' res where p: "p = (rb', res)" by (cases p)
    with Some have "Write_run b fuel rb (W_entry v) = Some (rb', res)" by (simp add: Write_def)
    from Write_run_ok[OF ok _ this] have "res = Returned True" by simp
    with Some p show ?thesis by simp
  qed
  have B: "Read fuel rb = None \<or> (\<exists>rb' x. Read fuel rb = Some (rb', Returned (x, True)))" for fuel
  proof (cases "Read fuel rb")
    case None
    then show ?thesis by simp
  next
    case (Some p)
    obtain rb' res where p: "p = (rb', res)" by (cases p)
    with Some have "Read_run fuel rb R_entry = Some (rb', res)" by (simp add: Read_def)
    from Read_run_ok[OF ok _ this] obtain x where "res = Returned (x, True)" by auto
    with Some p show ?thesis by simp
  qed
  have C: "\<exists>rb'. Write b 4 rb v = Some (rb', Returned True)"
    if "nextIdx (writeIdx rb) \<noteq> readIdx rb" for v
    using Write_not_full[OF that assms(1), of b 0 v] by simp
  have D: "\<exists>rb' x. Read 4 rb = Some (rb', Returned (x, True))" if "readIdx rb \<noteq> writeIdx rb"
    using Read_not_empty[OF that assms(2), of 0] by simp
  have E: "list_all (\<lambda>r. r) (wrets (run b sched s0)) \<and> list_all snd (got (run b sched s0)) \<and>
           wcall (run b sched s0) \<noteq> Some W_panic \<and> rcall (run b sched s0) \<noteq> Some R_panic"
    if s0: "s0 = \<lparr>mem = rb, wargs = vs, wcall = None, wrets = [], rcall = None, got = []\<rparr>"
    for sched vs s0
  proof -
    from ok s0 have "sys_ok s0" by (simp add: sys_ok_def)
    from run_ok[OF this, of b sched] s0 show ?thesis by (auto simp: sys_ok_def)
  qed
  from A B C D E[OF refl] Write_posix_full[of rb] Read_empty[of rb] show ?thesis
    by (intro conjI allI impI) blast+
qed

theorem C7_no_failure_result_witness:
  "unat (writeIdx zero_ring) < bufferSize \<and> unat (readIdx zero_ring) < bufferSize \<and>
   nextIdx (writeIdx zero_ring) \<noteq> readIdx zero_ring \<and>
   (\<forall>v. \<exists>rb'. Write Posix 4 zero_ring v = Some (rb', Returned True)) \<and>
   readIdx zero_ring = writeIdx zero_ring \<and>
   (\<forall>fuel. Read fuel zero_ring = None)"
  using C7_no_failure_result [of zero_ring Posix] nextIdx_0
  by (simp add: zero_ring_def bufferSize_def)

text \<open>
  C10. Frame condition. A \<^verbatim>\<open>Write\<close> that has returned has stored its value into
  \<^verbatim>\<open>buffer[writeIdx]\<close>, has advanced \<^verbatim>\<open>writeIdx\<close> and has left \<^verbatim>\<open>readIdx\<close> and every
  other slot as they were; a \<^verbatim>\<open>Read\<close> that has returned has advanced \<^verbatim>\<open>readIdx\<close> and has
  left \<^verbatim>\<open>writeIdx\<close> and every slot as they were. Step by step: no step of the producer
  changes \<^verbatim>\<open>readIdx\<close>, no step of the consumer changes \<^verbatim>\<open>writeIdx\<close> or a slot.
\<close>

theorem C10_frame:
  "(Write b fuel rb v = Some (rb', Returned r) \<longrightarrow>
      buffer rb' = (buffer rb)[unat (writeIdx rb) := v] \<and> writeIdx rb' = nextIdx (writeIdx rb) \<and>
      readIdx rb' = readIdx rb) \<and>
   (Read fuel' rc = Some (rc', Returned x) \<longrightarrow>
      readIdx rc' = nextIdx (readIdx rc) \<and> writeIdx rc' = writeIdx rc \<and> buffer rc' = buffer rc) \<and>
   readIdx (mem (prod_step b s)) = readIdx (mem s) \<and>
   writeIdx (mem (cons_step s)) = writeIdx (mem s) \<and>
   buffer (mem (cons_step s)) = buffer (mem s)"
proof (intro conjI impI)
  assume "Write b fuel rb v = Some (rb', Returned r)"
  then have "rb' = w_post rb (W_entry v)"
    using Write_run_post[of b fuel rb "W_entry v" rb' "Returned r"] by (simp add: Write_def)
  then show "buffer rb' = (buffer rb)[unat (writeIdx rb) := v]"
    and "writeIdx rb' = nextIdx (writeIdx rb)" and "readIdx rb' = readIdx rb"
    by simp_all
next
  assume "Read fuel' rc = Some (rc', Returned x)"
  then have "rc' = r_post rc R_entry"
    using Read_run_post[of fuel' rc R_entry rc' "Returned x"] by (simp add: Read_def)
  then show "readIdx rc' = nextIdx (readIdx rc)" and "writeIdx rc' = writeIdx rc"
    and "buffer rc' = buffer rc"
    by simp_all
next
  show "readIdx (mem (prod_step b s)) = readIdx (mem s)" by (rule prod_step_frame)
  show "writeIdx (mem (cons_step s)) = writeIdx (mem s)" using cons_step_frame by blast
  show "buffer (mem (cons_step s)) = buffer (mem s)" using cons_step_frame by blast
qed

theorem C10_frame_witness:
  "Write Posix 4 zero_ring 7 = Some (one_slot_ring, Returned True) \<and>
   buffer one_slot_ring = (buffer zero_ring)[unat (writeIdx zero_ring) := 7] \<and>
   writeIdx one_slot_ring = nextIdx (writeIdx zero_ring) \<and>
   readIdx one_slot_ring = readIdx zero_ring \<and>
   Read 4 one_slot_ring = Some (one_slot_ring\<lparr>readIdx := 1\<rparr>, Returned (7, True)) \<and>
   readIdx (one_slot_ring\<lparr>readIdx := 1\<rparr>) = nextIdx (readIdx one_slot_ring) \<and>
   writeIdx (one_slot_ring\<lparr>readIdx := 1\<rparr>) = writeIdx one_slot_ring \<and>
   buffer (one_slot_ring\<lparr>readIdx := 1\<rparr>) = buffer one_slot_ring"
proof -
  have n0: "nextIdx 0 = 1" by (rule nextIdx_0)
  have w: "Write Posix 4 zero_ring 7 = Some (one_slot_ring, Returned True)"
    using Write_not_full[of zero_ring Posix 0 7] bufferSize_pos
    by (simp add: zero_ring_def one_slot_ring_def n0)
  have r: "Read 4 one_slot_ring = Some (one_slot_ring\<lparr>readIdx := 1\<rparr>, Returned (7, True))"
    using Read_not_empty[of one_slot_ring 0] bufferSize_pos
    by (simp add: one_slot_ring_def n0)
  from w r C10_frame [of Posix 4 zero_ring 7 one_slot_ring True 4 one_slot_ring
      "one_slot_ring\<lparr>readIdx := 1\<rparr>" "(7, True)"]
  show ?thesis
    by (simp add: one_slot_ring_def zero_ring_def n0)
qed

section \<open>Spin durations\<close>

text \<open>
  C8, as amended. The durations passed to \<^verbatim>\<open>SpinWait\<close> are fixed in the code:
  \<^verbatim>\<open>Write\<close> waits 5 microseconds and \<^verbatim>\<open>Read\<close> waits 1 microsecond, whatever the variant,
  the segment and the arguments; the first is strictly longer than the second.
\<close>

theorem C8_spin_durations_fixed:
  "(Write_step b rb pc = (rb', W_spin v w n d) \<longrightarrow> d = 5 * Microsecond) \<and>
   (Read_step rc q = (rc', R_spin r e) \<longrightarrow> e = 1 * Microsecond) \<and>
   5 * Microsecond = 5000 \<and> 1 * Microsecond = 1000 \<and> 1 * Microsecond < 5 * Microsecond"
proof (intro conjI impI)
  assume "Write_step b rb pc = (rb', W_spin v w n d)"
  then show "d = 5 * Microsecond" by (cases pc; cases b) (auto simp: Let_def split: if_splits)
next
  assume "Read_step rc q = (rc', R_spin r e)"
  then show "e = 1 * Microsecond" by (cases q) (auto split: if_splits)
qed (simp_all add: Microsecond_def)

theorem C8_spin_durations_fixed_witness:
  "Write_step Windows \<lparr>buffer = [], writeIdx = 0, readIdx = 1\<rparr> (W_check 7 0 1) =
     (\<lparr>buffer = [], writeIdx = 0, readIdx = 1\<rparr>, W_spin 7 0 1 5000) \<and>
   Read_step \<lparr>buffer = [], writeIdx = 3, readIdx = 3\<rparr> (R_check 3) =
     (\<lparr>buffer = [], writeIdx = 3, readIdx = 3\<rparr>, R_spin 3 1000) \<and>
   (5000 :: int) = 5 * Microsecond \<and> (1000 :: int) = 1 * Microsecond"
  using C8_spin_durations_fixed [of Windows "\<lparr>buffer = [], writeIdx = 0, readIdx = 1\<rparr>" "W_check 7 0 1"
      "\<lparr>buffer = [], writeIdx = 0, readIdx = 1\<rparr>" 7 0 1 5000
      "\<lparr>buffer = [], writeIdx = 3, readIdx = 3\<rparr>" "R_check 3"
      "\<lparr>buffer = [], writeIdx = 3, readIdx = 3\<rparr>" 3 1000]
  by (simp add: Microsecond_def)

text \<open>
  C8 as stated asks for durations that are configuration. No input of \<^verbatim>\<open>Write\<close> or
  \<^verbatim>\<open>Read\<close> leads to a wait of any other duration.
\<close>

theorem C8_durations_not_configurable:
  "\<not> (\<exists>b rb pc rb' v w n d. Write_step b rb pc = (rb', W_spin v w n d) \<and> d \<noteq> 5000) \<and>
   \<not> (\<exists>rc q rc' r e. Read_step rc q = (rc', R_spin r e) \<and> e \<noteq> 1000)"
proof (intro conjI notI)
  assume "\<exists>b rb pc rb' v w n d. Write_step b rb pc = (rb', W_spin v w n d) \<and> d \<noteq> 5000"
  then obtain b rb pc rb' v w n d where "Write_step b rb pc = (rb', W_spin v w n d)" "d \<noteq> 5000"
    by blast
  then show False by (cases pc; cases b) (auto simp: Let_def Microsecond_def split: if_splits)
next
  assume "\<exists>rc q rc' r e. Read_step rc q = (rc', R_spin r e) \<and> e \<noteq> 1000"
  then obtain rc q rc' r e where "Read_step rc q = (rc', R_spin r e)" "e \<noteq> 1000" by blast
  then show False by (cases q) (auto simp: Microsecond_def split: if_splits)
qed

section \<open>Segment creation\<close>

lemma segment_size_posix: "segment_size p Posix = bufferSize * 8 + 16"
  by (simp add: segment_size_def Sizeof_struct_def align_up_def bufferSize_def)

lemma segment_size_windows: "p = 4 \<or> p = 8 \<Longrightarrow> segment_size p Windows = bufferSize * 8 + 24"
  by (auto simp: segment_size_def Sizeof_struct_def align_up_def bufferSize_def)

lemma posix_create_ok:
  assumes "\<not> open_err f" "\<not> ftruncate_err f" "\<not> mmap_err f"
  shows "NewSharedAtomicRingBuffer_posix f p name os =
     (Inr (filepath_Join ''/tmp'' name),
      os\<lparr>files := (files os)(filepath_Join ''/tmp'' name \<mapsto> replicate (bufferSize * 8 + 16) 0),
         mappings := (filepath_Join ''/tmp'' name, bufferSize * 8 + 16) # mappings os\<rparr>)"
  using assms
  by (cases "files os (filepath_Join ''/tmp'' name)")
     (simp_all add: NewSharedAtomicRingBuffer_posix_def os_OpenFile_def syscall_Ftruncate_def syscall_Mmap_def file_Close_def
        segment_size_posix Let_def)

lemma posix_create_fails:
  assumes "open_err f \<or> ftruncate_err f \<or> mmap_err f"
  shows "(\<exists>e. fst (NewSharedAtomicRingBuffer_posix f p name os) = Inl e) \<and>
         mappings (snd (NewSharedAtomicRingBuffer_posix f p name os)) = mappings os \<and>
         fds (snd (NewSharedAtomicRingBuffer_posix f p name os)) = fds os \<and>
         (open_err f \<or> files (snd (NewSharedAtomicRingBuffer_posix f p name os)) (filepath_Join ''/tmp'' name) = None)"
  using assms
  by (cases "files os (filepath_Join ''/tmp'' name)")
     (auto simp add: NewSharedAtomicRingBuffer_posix_def os_OpenFile_def syscall_Ftruncate_def syscall_Mmap_def file_Close_def
        os_Remove_def Let_def)

lemma windows_create_ok:
  assumes "\<not> create_err g" "\<not> mapview_err g" "p = 4 \<or> p = 8"
  shows "NewSharedAtomicRingBuffer_windows g p name os =
     (Inr name, os\<lparr>handles := (name, bufferSize * 8 + 24) # handles os,
                   views := (name, bufferSize * 8 + 24) # views os\<rparr>)"
  using assms
  by (auto simp add: NewSharedAtomicRingBuffer_windows_def windows_CreateFileMapping_def windows_MapViewOfFile_def
        segment_size_windows Let_def bufferSize_def)

lemma windows_create_fails:
  assumes "create_err g \<or> mapview_err g"
  shows "(\<exists>e. fst (NewSharedAtomicRingBuffer_windows g p name os) = Inl e) \<and>
         views (snd (NewSharedAtomicRingBuffer_windows g p name os)) = views os \<and>
         handles (snd (NewSharedAtomicRingBuffer_windows g p name os)) = handles os"
  using assms
  by (auto simp add: NewSharedAtomicRingBuffer_windows_def windows_CreateFileMapping_def windows_MapViewOfFile_def
        windows_CloseHandle_def Let_def)

text \<open>
  C3, as amended. The POSIX variant asks for \<open>bufferSize * 8 + 16\<close> bytes, the slot
  array and the two cursors. The Windows variant asks for \<open>bufferSize * 8 + 24\<close> bytes,
  on 32-bit and on 64-bit platforms, because its struct has the further field
  \<^verbatim>\<open>addr uintptr\<close>. A successful creation maps exactly that many bytes.
\<close>

theorem C3_segment_sizes:
  "segment_size p Posix = bufferSize * 8 + 16 \<and>
   (p = 4 \<or> p = 8 \<longrightarrow> segment_size p Windows = bufferSize * 8 + 24) \<and>
   (\<not> open_err f \<and> \<not> ftruncate_err f \<and> \<not> mmap_err f \<longrightarrow>
      mappings (snd (NewSharedAtomicRingBuffer_posix f p name os)) =
        (filepath_Join ''/tmp'' name, bufferSize * 8 + 16) # mappings os) \<and>
   (\<not> create_err g \<and> \<not> mapview_err g \<and> (p = 4 \<or> p = 8) \<longrightarrow>
      handles (snd (NewSharedAtomicRingBuffer_windows g p name wos)) =
        (name, bufferSize * 8 + 24) # handles wos \<and>
      views (snd (NewSharedAtomicRingBuffer_windows g p name wos)) =
        (name, bufferSize * 8 + 24) # views wos)"
proof (intro conjI impI)
  show "segment_size p Posix = bufferSize * 8 + 16" by (rule segment_size_posix)
next
  assume "p = 4 \<or> p = 8"
  then show "segment_size p Windows = bufferSize * 8 + 24" by (rule segment_size_windows)
next
  assume "\<not> open_err f \<and> \<not> ftruncate_err f \<and> \<not> mmap_err f"
  then show "mappings (snd (NewSharedAtomicRingBuffer_posix f p name os)) =
        (filepath_Join ''/tmp'' name, bufferSize * 8 + 16) # mappings os"
    by (simp add: posix_create_ok)
next
  assume a: "\<not> create_err g \<and> \<not> mapview_err g \<and> (p = 4 \<or> p = 8)"
  then show "handles (snd (NewSharedAtomicRingBuffer_windows g p name wos)) =
        (name, bufferSize * 8 + 24) # handles wos"
    by (simp add: windows_create_ok)
  from a show "views (snd (NewSharedAtomicRingBuffer_windows g p name wos)) =
        (name, bufferSize * 8 + 24) # views wos"
    by (simp add: windows_create_ok)
qed

theorem C3_segment_sizes_witness:
  "segment_size 8 Posix = 8208 \<and> segment_size 8 Windows = 8216 \<and> segment_size 4 Windows = 8216 \<and>
   mappings (snd (NewSharedAtomicRingBuffer_posix no_faults 8 ''SharedRingBuffer'' empty_os)) =
     [(''/tmp/SharedRingBuffer'', 8208)] \<and>
   views (snd (NewSharedAtomicRingBuffer_windows no_win_faults 8 ''SharedRingBuffer'' empty_win)) =
     [(''SharedRingBuffer'', 8216)]"
  using C3_segment_sizes [of 8 no_faults "''SharedRingBuffer''" empty_os no_win_faults empty_win]
    C3_segment_sizes [of 4 no_faults "''SharedRingBuffer''" empty_os no_win_faults empty_win]
  by (simp add: no_faults_def no_win_faults_def empty_os_def empty_win_def bufferSize_def filepath_Join_def)

text \<open>C3 as stated: the Windows size is not \<open>bufferSize * 8 + 16\<close>, and the two variants differ.\<close>

theorem C3_windows_size_differs:
  "segment_size 8 Windows \<noteq> bufferSize * 8 + 16 \<and> segment_size 4 Windows \<noteq> bufferSize * 8 + 16 \<and>
   segment_size 8 Windows \<noteq> segment_size 8 Posix"
  by (simp add: segment_size_posix segment_size_windows)

text \<open>
  C6. When opening, resizing or mapping fails, \<^verbatim>\<open>NewSharedAtomicRingBuffer\<close> returns an
  error and no handle, and leaves nothing acquired behind: no mapping or view, no open
  descriptor or handle, and (POSIX, once the file was opened) no backing file. When
  nothing fails it returns a handle.
\<close>

theorem C6_creation_failure_releases:
  "(open_err f \<or> ftruncate_err f \<or> mmap_err f \<longrightarrow>
      (\<exists>e. fst (NewSharedAtomicRingBuffer_posix f p name os) = Inl e) \<and>
      mappings (snd (NewSharedAtomicRingBuffer_posix f p name os)) = mappings os \<and>
      fds (snd (NewSharedAtomicRingBuffer_posix f p name os)) = fds os \<and>
      (open_err f \<or>
       files (snd (NewSharedAtomicRingBuffer_posix f p name os)) (filepath_Join ''/tmp'' name) = None)) \<and>
   (create_err g \<or> mapview_err g \<longrightarrow>
      (\<exists>e. fst (NewSharedAtomicRingBuffer_windows g p name wos) = Inl e) \<and>
      views (snd (NewSharedAtomicRingBuffer_windows g p name wos)) = views wos \<and>
      handles (snd (NewSharedAtomicRingBuffer_windows g p name wos)) = handles wos) \<and>
   (\<not> open_err f \<and> \<not> ftruncate_err f \<and> \<not> mmap_err f \<longrightarrow>
      fst (NewSharedAtomicRingBuffer_posix f p name os) = Inr (filepath_Join ''/tmp'' name)) \<and>
   (\<not> create_err g \<and> \<not> mapview_err g \<longrightarrow>
      fst (NewSharedAtomicRingBuffer_windows g p name wos) = Inr name)"
proof (intro conjI impI)
  assume a: "open_err f \<or> ftruncate_err f \<or> mmap_err f"
  from posix_create_fails[OF a, of p name os]
  show "\<exists>e. fst (NewSharedAtomicRingBuffer_posix f p name os) = Inl e"
    and "mappings (snd (NewSharedAtomicRingBuffer_posix f p name os)) = mappings os"
    and "fds (snd (NewSharedAtomicRingBuffer_posix f p name os)) = fds os"
    and "open_err f \<or>
       files (snd (NewSharedAtomicRingBuffer_posix f p name os)) (filepath_Join ''/tmp'' name) = None"
    by simp_all
next
  assume a: "create_err g \<or> mapview_err g"
  from windows_create_fails[OF a, of p name wos]
  show "\<exists>e. fst (NewSharedAtomicRingBuffer_windows g p name wos) = Inl e"
    and "views (snd (NewSharedAtomicRingBuffer_windows g p name wos)) = views wos"
    and "handles (snd (NewSharedAtomicRingBuffer_windows g p name wos)) = handles wos"
    by simp_all
next
  assume "\<not> open_err f \<and> \<not> ftruncate_err f \<and> \<not> mmap_err f"
  then show "fst (NewSharedAtomicRingBuffer_posix f p name os) = Inr (filepath_Join ''/tmp'' name)"
    by (simp add: posix_create_ok)
next
  assume "\<not> create_err g \<and> \<not> mapview_err g"
  then show "fst (NewSharedAtomicRingBuffer_windows g p name wos) = Inr name"
    by (simp add: NewSharedAtomicRingBuffer_windows_def windows_CreateFileMapping_def windows_MapViewOfFile_def Let_def)
qed

theorem C6_creation_failure_releases_witness:
  "ftruncate_err resize_fault \<and>
   fst (NewSharedAtomicRingBuffer_posix resize_fault 8 ''SharedRingBuffer'' stale_os) = Inl ResizeFailed \<and>
   mappings (snd (NewSharedAtomicRingBuffer_posix resize_fault 8 ''SharedRingBuffer'' stale_os)) = [] \<and>
   fds (snd (NewSharedAtomicRingBuffer_posix resize_fault 8 ''SharedRingBuffer'' stale_os)) = [] \<and>
   files (snd (NewSharedAtomicRingBuffer_posix resize_fault 8 ''SharedRingBuffer'' stale_os))
     ''/tmp/SharedRingBuffer'' = None \<and>
   mapview_err mapview_fault \<and>
   fst (NewSharedAtomicRingBuffer_windows mapview_fault 8 ''SharedRingBuffer'' empty_win) = Inl MapViewFailed \<and>
   views (snd (NewSharedAtomicRingBuffer_windows mapview_fault 8 ''SharedRingBuffer'' empty_win)) = [] \<and>
   handles (snd (NewSharedAtomicRingBuffer_windows mapview_fault 8 ''SharedRingBuffer'' empty_win)) = []"
  using C6_creation_failure_releases [of resize_fault 8 "''SharedRingBuffer''" stale_os mapview_fault empty_win]
  by (simp add: resize_fault_def mapview_fault_def stale_os_def empty_win_def filepath_Join_def
      NewSharedAtomicRingBuffer_posix_def NewSharedAtomicRingBuffer_windows_def os_OpenFile_def syscall_Ftruncate_def
      windows_CreateFileMapping_def windows_MapViewOfFile_def Let_def)

text \<open>
  C9, as amended. On the file-backed variant every successful creation leaves the
  backing file all zero, of length \<open>bufferSize * 8 + 16\<close>, whatever the file held
  before: the file is opened with \<^verbatim>\<open>O_TRUNC\<close> and then extended.
\<close>

theorem C9_creation_always_zeroes:
  assumes "\<not> open_err f" and "\<not> ftruncate_err f" and "\<not> mmap_err f"
  shows "files (snd (NewSharedAtomicRingBuffer_posix f p name os)) (filepath_Join ''/tmp'' name) =
           Some (replicate (bufferSize * 8 + 16) 0)"
  using assms by (simp add: posix_create_ok)

theorem C9_creation_always_zeroes_witness:
  "\<not> open_err no_faults \<and> \<not> ftruncate_err no_faults \<and> \<not> mmap_err no_faults \<and>
   files (snd (NewSharedAtomicRingBuffer_posix no_faults 8 ''SharedRingBuffer'' stale_os))
     (filepath_Join ''/tmp'' ''SharedRingBuffer'') = Some (replicate (bufferSize * 8 + 16) 0)"
  using C9_creation_always_zeroes [of no_faults 8 "''SharedRingBuffer''" stale_os]
  by (simp add: no_faults_def)

text \<open>
  C9 as stated: a backing file left with stale data by an earlier run is not observed
  by the next creation, which resets it.
\<close>

theorem C9_stale_data_is_reset:
  "files stale_os ''/tmp/SharedRingBuffer'' = Some (replicate 8208 255) \<and>
   files (snd (NewSharedAtomicRingBuffer_posix no_faults 8 ''SharedRingBuffer'' stale_os))
     ''/tmp/SharedRingBuffer'' = Some (replicate 8208 0) \<and>
   files (snd (NewSharedAtomicRingBuffer_posix no_faults 8 ''SharedRingBuffer'' stale_os))
     ''/tmp/SharedRingBuffer'' \<noteq> files stale_os ''/tmp/SharedRingBuffer''"
  using posix_create_ok [of no_faults 8 "''SharedRingBuffer''" stale_os]
  by (simp add: no_faults_def stale_os_def filepath_Join_def bufferSize_def)

end
